theory Spec2Isabelle
  imports Complex_Main "HOL-Library.Sublist"
begin

section \<open>Python strings\<close>

text \<open>
  A Python \<open>str\<close> is a sequence of Unicode code points, so it is modelled as a list of
  natural numbers: \<open>len\<close> is \<open>length\<close>, \<open>set(s)\<close> is \<open>set s\<close>. ASCII text is written with
  \<open>u ''...''\<close>; the Chinese labels of the source are written by their code points.
  Python floats are modelled as reals.
\<close>

type_synonym ustr = "nat list"

definition u :: "string \<Rightarrow> ustr" where
  "u s = map of_char s"

text \<open>\<open>str.isspace\<close> of one code point, also the class \<open>\s\<close> of \<open>re\<close> on \<open>str\<close> patterns.\<close>

definition py_isspace :: "nat \<Rightarrow> bool" where
  "py_isspace c = ((9 \<le> c \<and> c \<le> 13) \<or> (28 \<le> c \<and> c \<le> 32) \<or> c = 133 \<or> c = 160
     \<or> c = 5760 \<or> (8192 \<le> c \<and> c \<le> 8202) \<or> c = 8232 \<or> c = 8233 \<or> c = 8239
     \<or> c = 8287 \<or> c = 12288)"

text \<open>The class \<open>\d\<close>, on the ASCII digits (the decimal digits of other scripts are left out).\<close>

definition py_isdigit :: "nat \<Rightarrow> bool" where
  "py_isdigit c = (48 \<le> c \<and> c \<le> 57)"

text \<open>\<open>str.lower\<close> on the ASCII letters; code points without an ASCII case are kept
  (the case table of the other scripts belongs to the runtime and is left out).\<close>

definition lower_cp :: "nat \<Rightarrow> nat" where
  "lower_cp c = (if 65 \<le> c \<and> c \<le> 90 then c + 32 else c)"

definition py_lower :: "ustr \<Rightarrow> ustr" where
  "py_lower s = map lower_cp s"

definition py_strip :: "ustr \<Rightarrow> ustr" where
  "py_strip s = rev (dropWhile py_isspace (rev (dropWhile py_isspace s)))"

text \<open>\<open>s.split()\<close> without a separator: the maximal runs of non-whitespace. The first
  argument is the word being read.\<close>

fun split_ws :: "ustr \<Rightarrow> ustr \<Rightarrow> ustr list" where
  "split_ws cur [] = (if cur = [] then [] else [cur])"
| "split_ws cur (c # cs) =
     (if py_isspace c then (if cur = [] then split_ws [] cs else cur # split_ws [] cs)
      else split_ws (cur @ [c]) cs)"

definition py_split :: "ustr \<Rightarrow> ustr list" where
  "py_split s = split_ws [] s"

fun py_join :: "ustr \<Rightarrow> ustr list \<Rightarrow> ustr" where
  "py_join sep [] = []"
| "py_join sep [w] = w"
| "py_join sep (w # ws) = w @ sep @ py_join sep ws"

section \<open>Regular expressions\<close>

text \<open>
  The patterns of the source as syntax trees, and a backtracking matcher that tries the
  alternatives in the order of Python's \<open>re\<close>: a greedy repetition tries one more
  iteration before stopping, a lazy one the other way round, an alternation its left
  branch first. The continuation receives the state after the part matched so far; a
  state is the position in the text, the text from there on, and group 1.
\<close>

datatype citem = Ch nat | Rng nat nat | Space | Digit

fun citem_has :: "citem \<Rightarrow> nat \<Rightarrow> bool" where
  "citem_has (Ch a) c = (c = a)"
| "citem_has (Rng a b) c = (a \<le> c \<and> c \<le> b)"
| "citem_has Space c = py_isspace c"
| "citem_has Digit c = py_isdigit c"

definition cls_has :: "citem list \<Rightarrow> nat \<Rightarrow> bool" where
  "cls_has cs c = list_ex (\<lambda>i. citem_has i c) cs"

datatype rx = Lit ustr | In "citem list" | NotIn "citem list" | Dot | DotAll
  | Seq rx rx | Alt rx rx | Star rx | StarLazy rx | Opt rx | Grp rx
  | Ahead rx | NotAhead rx | Bol | Eol | Eos

datatype mst = Mst nat ustr "ustr option"

fun remaining :: "mst \<Rightarrow> nat" where
  "remaining (Mst p s g) = length s"

function (sequential) rmatch :: "rx \<Rightarrow> mst \<Rightarrow> (mst \<Rightarrow> mst option) \<Rightarrow> mst option" where
  "rmatch (Lit w) (Mst p s g) k =
     (if take (length w) s = w then k (Mst (p + length w) (drop (length w) s) g) else None)"
| "rmatch (In cs) (Mst p s g) k =
     (case s of [] \<Rightarrow> None | c # s' \<Rightarrow> if cls_has cs c then k (Mst (Suc p) s' g) else None)"
| "rmatch (NotIn cs) (Mst p s g) k =
     (case s of [] \<Rightarrow> None | c # s' \<Rightarrow> if cls_has cs c then None else k (Mst (Suc p) s' g))"
| "rmatch Dot (Mst p s g) k =
     (case s of [] \<Rightarrow> None | c # s' \<Rightarrow> if c = 10 then None else k (Mst (Suc p) s' g))"
| "rmatch DotAll (Mst p s g) k =
     (case s of [] \<Rightarrow> None | c # s' \<Rightarrow> k (Mst (Suc p) s' g))"
| "rmatch (Seq a b) (Mst p s g) k = rmatch a (Mst p s g) (\<lambda>st'. rmatch b st' k)"
| "rmatch (Alt a b) (Mst p s g) k =
     (case rmatch a (Mst p s g) k of Some r \<Rightarrow> Some r | None \<Rightarrow> rmatch b (Mst p s g) k)"
| "rmatch (Star a) (Mst p s g) k =
     (case rmatch a (Mst p s g)
             (\<lambda>st'. if remaining st' < length s then rmatch (Star a) st' k else None)
      of Some r \<Rightarrow> Some r | None \<Rightarrow> k (Mst p s g))"
| "rmatch (StarLazy a) (Mst p s g) k =
     (case k (Mst p s g) of Some r \<Rightarrow> Some r
      | None \<Rightarrow> rmatch a (Mst p s g)
             (\<lambda>st'. if remaining st' < length s then rmatch (StarLazy a) st' k else None))"
| "rmatch (Opt a) (Mst p s g) k =
     (case rmatch a (Mst p s g) k of Some r \<Rightarrow> Some r | None \<Rightarrow> k (Mst p s g))"
| "rmatch (Grp a) (Mst p s g) k =
     rmatch a (Mst p s g)
       (\<lambda>st'. case st' of Mst p' s' g' \<Rightarrow> k (Mst p' s' (Some (take (p' - p) s))))"
| "rmatch (Ahead a) (Mst p s g) k =
     (case rmatch a (Mst p s g) Some of Some r \<Rightarrow> k (Mst p s g) | None \<Rightarrow> None)"
| "rmatch (NotAhead a) (Mst p s g) k =
     (case rmatch a (Mst p s g) Some of Some r \<Rightarrow> None | None \<Rightarrow> k (Mst p s g))"
| "rmatch Bol (Mst p s g) k = (if p = 0 then k (Mst p s g) else None)"
| "rmatch Eol (Mst p s g) k = (if s = [] \<or> s = [10] then k (Mst p s g) else None)"
| "rmatch Eos (Mst p s g) k = (if s = [] then k (Mst p s g) else None)"
  by pat_completeness auto
termination
  by (relation "inv_image (less_than <*lex*> less_than) (\<lambda>(r, st, k). (size r, remaining st))")
    auto

text \<open>\<open>r+\<close>, \<open>r+?\<close> and the concatenation of a list of patterns.\<close>

definition Plus :: "rx \<Rightarrow> rx" where
  "Plus r = Seq r (Star r)"

definition PlusLazy :: "rx \<Rightarrow> rx" where
  "PlusLazy r = Seq r (StarLazy r)"

fun Cat :: "rx list \<Rightarrow> rx" where
  "Cat [] = Lit []"
| "Cat [r] = r"
| "Cat (r # rs) = Seq r (Cat rs)"

text \<open>A match object: start, end and group 1.\<close>

datatype rmatch_obj = Match nat nat "ustr option"

text \<open>\<open>re.search\<close> from position \<open>p\<close>, where \<open>s\<close> is the text from \<open>p\<close> on: the first
  start position with a match.\<close>

fun search_from :: "rx \<Rightarrow> nat \<Rightarrow> ustr \<Rightarrow> rmatch_obj option" where
  "search_from r p [] =
     (case rmatch r (Mst p [] None) Some of
        Some (Mst e s' g) \<Rightarrow> Some (Match p e g) | None \<Rightarrow> None)"
| "search_from r p (c # s) =
     (case rmatch r (Mst p (c # s) None) Some of
        Some (Mst e s' g) \<Rightarrow> Some (Match p e g) | None \<Rightarrow> search_from r (Suc p) s)"

definition re_search :: "rx \<Rightarrow> ustr \<Rightarrow> rmatch_obj option" where
  "re_search r s = search_from r 0 s"

text \<open>\<open>match.group(1)\<close>; in every pattern of the source group 1 is part of each match.\<close>

fun group1 :: "rmatch_obj \<Rightarrow> ustr" where
  "group1 (Match b e g) = (case g of Some w \<Rightarrow> w | None \<Rightarrow> [])"

text \<open>\<open>re.sub(r, '', s)\<close>: the text without the successive matches of \<open>r\<close>. After an empty
  match the next code point is kept and the scan goes on behind it.\<close>

function sub_from :: "rx \<Rightarrow> nat \<Rightarrow> ustr \<Rightarrow> ustr" where
  "sub_from r p s =
     (case search_from r p s of
        None \<Rightarrow> s
      | Some (Match b e g) \<Rightarrow>
          take (b - p) s @
          (if e - p = 0 then (case s of [] \<Rightarrow> [] | c # s' \<Rightarrow> c # sub_from r (Suc p) s')
           else if s = [] then []
           else sub_from r e (drop (e - p) s)))"
  by pat_completeness auto
termination
  by (relation "measure (\<lambda>(r, p, s). length s)") (auto simp: neq_Nil_conv)

definition re_sub_del :: "rx \<Rightarrow> ustr \<Rightarrow> ustr" where
  "re_sub_del r s = sub_from r 0 s"

text \<open>\<open>re.findall(r, s)\<close> for a pattern with one group: group 1 of the successive matches.\<close>

function findall_from :: "rx \<Rightarrow> nat \<Rightarrow> ustr \<Rightarrow> ustr list" where
  "findall_from r p s =
     (case search_from r p s of
        None \<Rightarrow> []
      | Some (Match b e g) \<Rightarrow>
          group1 (Match b e g) #
          (if s = [] then []
           else findall_from r (p + max 1 (e - p)) (drop (max 1 (e - p)) s)))"
  by pat_completeness auto
termination
  by (relation "measure (\<lambda>(r, p, s). length s)") auto

definition re_findall :: "rx \<Rightarrow> ustr \<Rightarrow> ustr list" where
  "re_findall r s = findall_from r 0 s"

text \<open>\<open>re.split\<close> on a pattern that is one character class, and \<open>str.split(sep)\<close> for a
  separator of one character: the pieces between the separators, empty ones included.\<close>

fun split_at :: "citem list \<Rightarrow> ustr \<Rightarrow> ustr \<Rightarrow> ustr list" where
  "split_at cs cur [] = [cur]"
| "split_at cs cur (c # s) =
     (if cls_has cs c then cur # split_at cs [] s else split_at cs (cur @ [c]) s)"

definition re_split :: "citem list \<Rightarrow> ustr \<Rightarrow> ustr list" where
  "re_split cs s = split_at cs [] s"

section \<open>Name normalisation\<close>

text \<open>
  \<open>normalize_eif_name\<close>: lower-case and trim, join the words by single spaces, delete
  \<open>\([^)]*\)\<close>, delete the same pattern on the full-width parentheses U+FF08 and U+FF09,
  trim again.
\<close>

definition paren_ascii :: rx where
  "paren_ascii = Cat [Lit [40], Star (NotIn [Ch 41]), Lit [41]]"

definition paren_cjk :: rx where
  "paren_cjk = Cat [Lit [0xFF08], Star (NotIn [Ch 0xFF09]), Lit [0xFF09]]"

definition normalize_eif_name :: "ustr \<Rightarrow> ustr" where
  "normalize_eif_name name0 =
     (let name1 = py_strip (py_lower name0);
          name2 = py_join [32] (py_split name1);
          name3 = re_sub_del paren_ascii name2;
          name4 = re_sub_del paren_cjk name3
      in py_strip name4)"

section \<open>String similarity\<close>

text \<open>
  \<open>_string_similarity\<close>: 0.0 when one string is empty; otherwise the Jaccard index of the
  two sets of words, or of the two sets of characters when one set of words is empty.
\<close>

definition jaccard :: "'a set \<Rightarrow> 'a set \<Rightarrow> real" where
  "jaccard set1 set2 =
     (let intersection = card (set1 \<inter> set2); union = card (set1 \<union> set2)
      in if union > 0 then real intersection / real union else 0)"

definition string_similarity :: "ustr \<Rightarrow> ustr \<Rightarrow> real" where
  "string_similarity s1 s2 =
     (if s1 = [] \<or> s2 = [] then 0
      else if set (py_split s1) = {} \<or> set (py_split s2) = {} then jaccard (set s1) (set s2)
      else jaccard (set (py_split s1)) (set (py_split s2)))"

section \<open>Answer extraction\<close>

text \<open>
  \<open>_clean_eif_name\<close>: delete a leading ordinal \<open>^\d+[\.\)\<close>U+3001\<open>]\s*\<close>, a leading bullet
  \<open>^[-\<close>U+2022 U+00B7\<open>]\s*\<close>, every square bracket, and join the words by single spaces.
\<close>

definition ordinal_prefix :: rx where
  "ordinal_prefix = Cat [Bol, Plus (In [Digit]), In [Ch 46, Ch 41, Ch 0x3001], Star (In [Space])]"

definition bullet_prefix :: rx where
  "bullet_prefix = Cat [Bol, In [Ch 45, Ch 0x2022, Ch 0xB7], Star (In [Space])]"

definition square_bracket :: rx where
  "square_bracket = In [Ch 91, Ch 93]"

definition clean_eif_name :: "ustr \<Rightarrow> ustr" where
  "clean_eif_name name0 =
     (let name1 = re_sub_del ordinal_prefix name0;
          name2 = re_sub_del bullet_prefix name1;
          name3 = re_sub_del square_bracket name2
      in py_join [32] (py_split name3))"

text \<open>
  The labels of the source, by code point: \<open>zuizhong\<close> is U+6700 U+7EC8 ("final"),
  \<open>gongnengdian\<close> is U+529F U+80FD U+70B9 ("function point"), \<open>liebiao\<close> is U+5217 U+8868
  ("list"), so that \<open>eif_label\<close> is the label "EIF function point list" of the prompts.
  The colon class holds the full-width colon U+FF1A and the ASCII colon.
\<close>

definition zuizhong :: ustr where
  "zuizhong = [0x6700, 0x7EC8]"

definition gongnengdian :: ustr where
  "gongnengdian = [0x529F, 0x80FD, 0x70B9]"

definition liebiao :: ustr where
  "liebiao = [0x5217, 0x8868]"

definition eif_label :: ustr where
  "eif_label = u ''EIF'' @ gongnengdian @ liebiao"

definition improved_label :: ustr where
  "improved_label = [0x6539, 0x8FDB, 0x540E, 0x7684] @ eif_label"

definition perspective_label :: ustr where
  "perspective_label = [0x8BE5, 0x89C6, 0x89D2, 0x8BC6, 0x522B, 0x7684] @ u ''EIF'' @ gongnengdian"

definition ruxia :: ustr where
  "ruxia = [0x5982, 0x4E0B]"

definition colon :: rx where
  "colon = In [Ch 0xFF1A, Ch 58]"

definition ws :: rx where
  "ws = Star (In [Space])"

text \<open>\<open>\[([^\]]+)\]\<close>, \<open>([^\n]+)\<close> and \<open>([^\n\<close>U+FF08\<open>]+)\<close>.\<close>

definition bracketed :: rx where
  "bracketed = Cat [Lit [91], Grp (Plus (NotIn [Ch 93])), Lit [93]]"

definition to_eol :: rx where
  "to_eol = Grp (Plus (NotIn [Ch 10]))"

definition to_eol_or_paren :: rx where
  "to_eol_or_paren = Grp (Plus (NotIn [Ch 10, Ch 0xFF08]))"

definition opt_star :: rx where
  "opt_star = Opt (Lit [42])"

text \<open>The seven final-conclusion patterns of the long-text stage, in the source's order.\<close>

definition final_patterns :: "rx list" where
  "final_patterns =
     [Cat [Lit (u ''**'' @ zuizhong @ eif_label @ u ''**''), colon, ws, bracketed],
      Cat [Lit (u ''**'' @ zuizhong @ eif_label @ u ''**''), colon, ws, to_eol],
      Cat [Lit (zuizhong @ eif_label), colon, ws, bracketed],
      Cat [Lit (zuizhong @ eif_label), colon, ws, to_eol],
      Cat [Lit zuizhong, StarLazy DotAll, Lit gongnengdian, StarLazy DotAll, Lit liebiao,
           colon, ws, bracketed],
      Cat [opt_star, opt_star, Lit eif_label, opt_star, opt_star, colon, ws, bracketed],
      Cat [Lit eif_label, colon, ws, to_eol]]"

text \<open>\<open>\[([A-Z][A-Z_,\s]+)\](?!.*\[)\<close> with \<open>re.DOTALL\<close>, searched in the last 500 characters.\<close>

definition tail_list :: rx where
  "tail_list =
     Cat [Lit [91], Grp (Seq (In [Rng 65 90]) (Plus (In [Rng 65 90, Ch 95, Ch 44, Space]))),
          Lit [93], NotAhead (Seq (Star DotAll) (Lit [91]))]"

text \<open>The numbered list after the title:
  \<open>EIF...[:]\s*\*?\*?\s*\n((?:\d+\.\s*\*\*[^\*]+\*\*[^\n]*\n?)+)\<close>, and the bold name of one
  line \<open>\d+\.\s*\*\*([A-Z][A-Za-z_\s]+)\*\*\<close>.\<close>

definition numbered_line :: rx where
  "numbered_line =
     Cat [Plus (In [Digit]), Lit [46], ws, Lit [42, 42], Plus (NotIn [Ch 42]), Lit [42, 42],
          Star (NotIn [Ch 10]), Opt (Lit [10])]"

definition numbered_section :: rx where
  "numbered_section =
     Cat [Lit eif_label, colon, ws, opt_star, opt_star, ws, Lit [10], Grp (Plus numbered_line)]"

definition bold_name :: rx where
  "bold_name =
     Cat [Plus (In [Digit]), Lit [46], ws, Lit [42, 42],
          Grp (Seq (In [Rng 65 90]) (Plus (In [Rng 65 90, Rng 97 122, Ch 95, Space]))),
          Lit [42, 42]]"

text \<open>The eleven labelled patterns, in the source's order.\<close>

definition patterns :: "rx list" where
  "patterns =
     [Cat [Lit (zuizhong @ eif_label), colon, ws, bracketed],
      Cat [Lit (zuizhong @ eif_label), colon, ws, to_eol_or_paren],
      Cat [Lit improved_label, colon, ws, bracketed],
      Cat [Lit improved_label, colon, ws, to_eol_or_paren],
      Cat [Lit perspective_label, colon, ws, bracketed],
      Cat [Lit perspective_label, colon, ws, to_eol_or_paren],
      Cat [opt_star, opt_star, Lit eif_label, opt_star, opt_star, colon, ws, bracketed],
      Cat [Lit eif_label, colon, ws, bracketed],
      Cat [Lit eif_label, colon, ws, to_eol_or_paren],
      Cat [Lit (gongnengdian @ ruxia), colon, ws, to_eol],
      Cat [Lit gongnengdian, colon, ws, to_eol_or_paren]]"

text \<open>The two descriptive lead-ins deleted before the simple stage: U+6839 U+636E
  \<open>.*?\<close> U+5982 U+4E0B \<open>[:]?\s*\<close> and U+8BC6 U+522B U+51FA \<open>.*?\<close> U+5982 U+4E0B \<open>[:]?\s*\<close>.\<close>

definition lead_in_genju :: rx where
  "lead_in_genju = Cat [Lit [0x6839, 0x636E], StarLazy Dot, Lit ruxia, Opt colon, ws]"

definition lead_in_shibiechu :: rx where
  "lead_in_shibiechu = Cat [Lit [0x8BC6, 0x522B, 0x51FA], StarLazy Dot, Lit ruxia, Opt colon, ws]"

text \<open>\<open>\d+\.\s*\*\*([A-Z][A-Za-z_\s]+)\*\*\s*[-\<close>U+2013 U+2014\<open>]\<close>,
  \<open>EIF...[:](.*?)(?=\n\n|\Z)\<close> with \<open>re.DOTALL\<close>, and
  \<open>\d+\.\s*([A-Z][A-Z_\s]+?)(?:\s*[-\<close>U+2013 U+2014\<open>]|\s*\n|$)\<close>.\<close>

definition dash :: rx where
  "dash = In [Ch 45, Ch 0x2013, Ch 0x2014]"

definition bold_dash_name :: rx where
  "bold_dash_name = Cat [bold_name, ws, dash]"

definition eif_section :: rx where
  "eif_section =
     Cat [Lit eif_label, colon, Grp (StarLazy DotAll), Ahead (Alt (Lit [10, 10]) Eos)]"

definition plain_numbered_name :: rx where
  "plain_numbered_name =
     Cat [Plus (In [Digit]), Lit [46], ws,
          Grp (Seq (In [Rng 65 90]) (PlusLazy (In [Rng 65 90, Ch 95, Space]))),
          Alt (Seq ws dash) (Alt (Seq ws (Lit [10])) Eol)]"

text \<open>The separators of a list: comma, U+FF0C, U+3001, semicolon, U+FF1B.\<close>

definition separators :: "citem list" where
  "separators = [Ch 44, Ch 0xFF0C, Ch 0x3001, Ch 59, Ch 0xFF1B]"

text \<open>The answers that mean "no item": U+65E0, U+65E0 U+3002, \<open>None\<close>, \<open>none\<close>.\<close>

definition none_words :: "ustr list" where
  "none_words = [[0x65E0], [0x65E0, 0x3002], u ''None'', u ''none'']"

text \<open>\<open>w in s\<close> on strings: \<open>w\<close> occurs in \<open>s\<close> as a contiguous piece.\<close>

fun contains :: "ustr \<Rightarrow> ustr \<Rightarrow> bool" where
  "contains w [] = (w = [])"
| "contains w (c # s) = (if take (length w) (c # s) = w then True else contains w s)"

text \<open>
  The stages of \<open>extract_answer\<close>. Each stage gives \<open>Some\<close> list where the source returns
  and \<open>None\<close> where the source goes on to the next stage.

  Long text, first part: the loop over the final-conclusion patterns.
\<close>

fun final_conclusion :: "rx list \<Rightarrow> ustr \<Rightarrow> ustr list option" where
  "final_conclusion [] text = None"
| "final_conclusion (pattern # rest) text =
     (case re_search pattern text of
        None \<Rightarrow> final_conclusion rest text
      | Some m \<Rightarrow>
          (let eif_text = py_strip (group1 m) in
           if eif_text \<in> set none_words then Some []
           else
             (let eif_list = map (\<lambda>item. clean_eif_name (py_strip item))
                               (re_split separators eif_text);
                  eif_list2 = filter (\<lambda>item. item \<noteq> [] \<and> length item < 50) eif_list
              in if eif_list2 \<noteq> [] then Some eif_list2 else final_conclusion rest text)))"

text \<open>Long text, second part: an upper-case bracketed list in the last 500 characters.\<close>

definition text_tail_list :: "ustr \<Rightarrow> ustr list option" where
  "text_tail_list text =
     (let text_tail = drop (length text - 500) text in
      case re_search tail_list text_tail of
        None \<Rightarrow> None
      | Some m \<Rightarrow>
          (let eif_text = py_strip (group1 m);
               eif_list = map (\<lambda>item. clean_eif_name (py_strip item)) (re_split [Ch 44] eif_text);
               eif_list2 = filter (\<lambda>item. item \<noteq> [] \<and> length item < 50) eif_list
           in if eif_list2 \<noteq> [] then Some eif_list2 else None))"

definition long_text_stage :: "ustr \<Rightarrow> ustr list option" where
  "long_text_stage text =
     (case final_conclusion final_patterns text of
        Some r \<Rightarrow> Some r
      | None \<Rightarrow> text_tail_list text)"

text \<open>The numbered list after the title.\<close>

definition numbered_after_title :: "ustr \<Rightarrow> ustr list option" where
  "numbered_after_title text =
     (case re_search numbered_section text of
        None \<Rightarrow> None
      | Some m \<Rightarrow>
          (let list_section = group1 m;
               matches = re_findall bold_name list_section
           in if matches \<noteq> [] then
                (let eif_list = map (\<lambda>m. clean_eif_name (py_strip m)) matches;
                     eif_list2 = filter (\<lambda>item. item \<noteq> [] \<and> 2 < length item \<and> length item < 50)
                                   eif_list
                 in if eif_list2 \<noteq> [] then Some eif_list2 else None)
              else None))"

text \<open>The loop over the labelled patterns.\<close>

fun labelled :: "rx list \<Rightarrow> ustr \<Rightarrow> ustr list option" where
  "labelled [] text = None"
| "labelled (pattern # rest) text =
     (case re_search pattern text of
        None \<Rightarrow> labelled rest text
      | Some m \<Rightarrow>
          (let answer_text = py_strip (group1 m) in
           if answer_text \<in> set none_words then Some []
           else if answer_text \<in> set [[], u ''**'', u ''*''] then labelled rest text
           else
             (let eif_list = re_split separators answer_text;
                  eif_list2 = map (\<lambda>item. clean_eif_name (py_strip item))
                                (filter (\<lambda>item. py_strip item \<noteq> []) eif_list);
                  eif_list3 = filter (\<lambda>item. item \<noteq> [] \<and> length item > 0) eif_list2
              in if eif_list3 \<noteq> [] then Some eif_list3 else labelled rest text)))"

text \<open>The whole text as a list: the simple comma-separated stage, then a single short
  name.\<close>

definition simple_list :: "ustr \<Rightarrow> ustr list option" where
  "simple_list cleaned_text =
     (if 44 \<in> set cleaned_text \<or> 0xFF0C \<in> set cleaned_text then
        (let eif_list = re_split separators cleaned_text;
             eif_list2 = map (\<lambda>item. clean_eif_name (py_strip item))
                           (filter (\<lambda>item. py_strip item \<noteq> []) eif_list);
             eif_list3 = filter (\<lambda>item. item \<noteq> [] \<and> length item < 50 \<and> length item > 0)
                           eif_list2
         in if eif_list3 \<noteq> [] then Some eif_list3 else None)
      else None)"

definition single_name :: "ustr \<Rightarrow> ustr list option" where
  "single_name cleaned_text =
     (if length cleaned_text < 50 \<and> length cleaned_text > 0 then
        (let eif_name = clean_eif_name cleaned_text
         in if eif_name \<noteq> [] then Some [eif_name] else None)
      else None)"

text \<open>The last resort: a numbered list with bold names, then a plain numbered list in the
  section after the label.\<close>

definition bold_list :: "ustr \<Rightarrow> ustr list option" where
  "bold_list text =
     (let matches = re_findall bold_dash_name text in
      if matches \<noteq> [] then
        (let eif_list = map (\<lambda>m. clean_eif_name (py_strip m)) matches;
             eif_list2 = filter (\<lambda>item. item \<noteq> [] \<and> 2 < length item \<and> length item < 50
                                   \<and> \<not> contains liebiao item \<and> \<not> contains gongnengdian item)
                           eif_list
         in if eif_list2 \<noteq> [] then Some eif_list2 else None)
      else None)"

definition plain_numbered_list :: "ustr \<Rightarrow> ustr list option" where
  "plain_numbered_list text =
     (case re_search eif_section text of
        None \<Rightarrow> None
      | Some m \<Rightarrow>
          (let section_text = group1 m;
               matches = re_findall plain_numbered_name section_text
           in if matches \<noteq> [] then
                (let eif_list = map (\<lambda>m. clean_eif_name (py_strip m)) matches;
                     eif_list2 = filter (\<lambda>item. item \<noteq> [] \<and> length item > 0 \<and> length item < 50)
                                   eif_list
                 in if eif_list2 \<noteq> [] then Some eif_list2 else None)
              else None))"

definition unlabelled_stage :: "ustr \<Rightarrow> ustr list" where
  "unlabelled_stage text =
     (let cleaned_text = py_strip (re_sub_del lead_in_shibiechu (re_sub_del lead_in_genju text)) in
      if py_lower cleaned_text \<in> set [[0x65E0], u ''none'', []] then []
      else case simple_list cleaned_text of
        Some r \<Rightarrow> r
      | None \<Rightarrow>
          (case single_name cleaned_text of
             Some r \<Rightarrow> r
           | None \<Rightarrow>
               (case bold_list text of
                  Some r \<Rightarrow> r
                | None \<Rightarrow>
                    (case plain_numbered_list text of
                       Some r \<Rightarrow> r
                     | None \<Rightarrow> []))))"

definition extract_answer :: "ustr \<Rightarrow> ustr list" where
  "extract_answer text0 =
     (if text0 = [] then []
      else
        (let text = py_strip text0 in
         case (if length text > 500 then long_text_stage text else None) of
           Some r \<Rightarrow> r
         | None \<Rightarrow>
             (case numbered_after_title text of
                Some r \<Rightarrow> r
              | None \<Rightarrow>
                  (case labelled patterns text of
                     Some r \<Rightarrow> r
                   | None \<Rightarrow> unlabelled_stage text))))"

section \<open>Semantic similarity through a language model\<close>

text \<open>
  The language model is an object with state. One query (\<open>lm.query\<close> followed by
  \<open>lm.get_response_texts\<close>) either raises or gives a list of response texts, and leaves
  the model in a new state. The prompt is a fixed instruction text with the two names
  inserted, so the model of the query receives the two names.
\<close>

datatype lm_reply = Raises | Texts "ustr list"

type_synonym 's lm = "ustr \<Rightarrow> ustr \<Rightarrow> 's \<Rightarrow> lm_reply \<times> 's"

text \<open>\<open>(\d+\.?\d*)\<close>, and \<open>float\<close> on a text of that shape.\<close>

definition score_number :: rx where
  "score_number = Grp (Cat [Plus (In [Digit]), Opt (Lit [46]), Star (In [Digit])])"

definition digits_value :: "ustr \<Rightarrow> nat" where
  "digits_value w = foldl (\<lambda>a c. 10 * a + (c - 48)) 0 w"

definition py_float :: "ustr \<Rightarrow> real" where
  "py_float w =
     (let int_part = takeWhile py_isdigit w;
          frac_part = drop (Suc (length int_part)) w
      in real (digits_value int_part) + real (digits_value frac_part) / 10 ^ length frac_part)"

text \<open>The body of the \<open>try\<close>: it returns a score, or falls through to the code after the
  \<open>try\<close> (empty response, no number found), or raises.\<close>

datatype attempt = Returned real | Fell_through | Raised

definition llm_attempt :: "lm_reply \<Rightarrow> attempt" where
  "llm_attempt reply =
     (case reply of
        Raises \<Rightarrow> Raised
      | Texts response_texts \<Rightarrow>
          (case response_texts of
             [] \<Rightarrow> Fell_through
           | first # others \<Rightarrow>
               (let text = py_strip first in
                case re_search score_number text of
                  Some m \<Rightarrow> Returned (max 0 (min 1 (py_float (group1 m))))
                | None \<Rightarrow> Fell_through)))"

text \<open>\<open>check_eif_semantic_similarity\<close>: the \<open>except Exception\<close> clause catches what the body
  raises, and both the caught exception and the fall-through reach the fallback.\<close>

definition check_eif_semantic_similarity ::
  "ustr \<Rightarrow> ustr \<Rightarrow> 's lm option \<Rightarrow> bool \<Rightarrow> 's \<Rightarrow> real \<times> 's" where
  "check_eif_semantic_similarity name1 name2 lm use_lm s =
     (case lm of
        None \<Rightarrow> (string_similarity name1 name2, s)
      | Some query \<Rightarrow>
          if use_lm then
            (case query name1 name2 s of
               (reply, s') \<Rightarrow>
                 (case llm_attempt reply of
                    Returned score \<Rightarrow> (score, s')
                  | Fell_through \<Rightarrow> (string_similarity name1 name2, s')
                  | Raised \<Rightarrow> (string_similarity name1 name2, s')))
          else (string_similarity name1 name2, s))"

section \<open>Matching and scoring\<close>

text \<open>
  One entry of \<open>semantic_matches\<close>: the source formats the predicted name, the matched
  ground-truth name and the score into one line of text; the model keeps the three parts.
\<close>

record match_detail =
  m_pred :: ustr
  m_truth :: ustr
  m_score :: real

record eif_report =
  f1_score :: real
  precision :: real
  recall :: real
  exact_matches :: nat
  fuzzy_score :: real
  semantic_matches :: "match_detail list"

text \<open>The similarity of one predicted item and one ground-truth item, each given as the
  pair of its normalised and its original name: through the language model on the
  original names when that is enabled, by \<open>_string_similarity\<close> on the normalised names
  otherwise.\<close>

definition pair_similarity ::
  "'s lm option \<Rightarrow> bool \<Rightarrow> ustr \<times> ustr \<Rightarrow> ustr \<times> ustr \<Rightarrow> 's \<Rightarrow> real \<times> 's" where
  "pair_similarity lm use_lm_semantic pred truth s =
     (case (pred, truth) of
        ((pred_norm, pred_orig), (truth_norm, truth_orig)) \<Rightarrow>
          if use_lm_semantic \<and> lm \<noteq> None
          then check_eif_semantic_similarity pred_orig truth_orig lm True s
          else (string_similarity pred_norm truth_norm, s))"

text \<open>The inner loop over \<open>unmatched_truth\<close>. The accumulator is \<open>max_similarity\<close>, the best
  match so far (\<open>best_match\<close> and \<open>best_match_orig\<close>, set together) and the state of the
  language model.\<close>

fun best_match_loop ::
  "'s lm option \<Rightarrow> bool \<Rightarrow> ustr \<times> ustr \<Rightarrow> ustr set \<Rightarrow> (ustr \<times> ustr) list
     \<Rightarrow> real \<times> (ustr \<times> ustr) option \<times> 's \<Rightarrow> real \<times> (ustr \<times> ustr) option \<times> 's" where
  "best_match_loop lm use pred matched_truth [] acc = acc"
| "best_match_loop lm use pred matched_truth (truth # rest) (max_similarity, best, s) =
     (if snd truth \<in> matched_truth
      then best_match_loop lm use pred matched_truth rest (max_similarity, best, s)
      else
        (case pair_similarity lm use pred truth s of
           (similarity, s') \<Rightarrow>
             if similarity > max_similarity
             then best_match_loop lm use pred matched_truth rest (similarity, Some truth, s')
             else best_match_loop lm use pred matched_truth rest (max_similarity, best, s')))"

text \<open>The test \<open>max_similarity > 0.7 and best_match\<close>: a string is true when it is not
  empty, and \<open>None\<close> is false. The result is \<open>best_match_orig\<close> when the test holds.\<close>

definition accepted :: "real \<Rightarrow> (ustr \<times> ustr) option \<Rightarrow> ustr option" where
  "accepted max_similarity best =
     (case best of
        None \<Rightarrow> None
      | Some (best_match, best_match_orig) \<Rightarrow>
          if max_similarity > 7 / 10 \<and> best_match \<noteq> [] then Some best_match_orig else None)"

text \<open>The outer loop over \<open>unmatched_pred\<close>. The accumulator is \<open>fuzzy_score\<close>,
  \<open>matched_truth\<close>, \<open>match_details\<close> and the state of the language model.\<close>

fun match_loop ::
  "'s lm option \<Rightarrow> bool \<Rightarrow> (ustr \<times> ustr) list \<Rightarrow> (ustr \<times> ustr) list
     \<Rightarrow> real \<times> ustr set \<times> match_detail list \<times> 's \<Rightarrow> real \<times> ustr set \<times> match_detail list \<times> 's" where
  "match_loop lm use unmatched_truth [] acc = acc"
| "match_loop lm use unmatched_truth (pred # rest) (fuzzy, matched_truth, match_details, s) =
     (case best_match_loop lm use pred matched_truth unmatched_truth (0, None, s) of
        (max_similarity, best, s') \<Rightarrow>
          (case accepted max_similarity best of
             Some best_match_orig \<Rightarrow>
               match_loop lm use unmatched_truth rest
                 (fuzzy + max_similarity,
                  insert best_match_orig matched_truth,
                  match_details @
                    [\<lparr>m_pred = snd pred, m_truth = best_match_orig, m_score = max_similarity\<rparr>],
                  s')
           | None \<Rightarrow>
               match_loop lm use unmatched_truth rest (fuzzy, matched_truth, match_details, s')))"

definition calculate_eif_similarity ::
  "ustr list \<Rightarrow> ustr list \<Rightarrow> 's lm option \<Rightarrow> bool \<Rightarrow> 's \<Rightarrow> eif_report \<times> 's" where
  "calculate_eif_similarity predicted ground_truth lm use_lm_semantic s =
     (if ground_truth = [] \<and> predicted = [] then
        (\<lparr>f1_score = 1, precision = 1, recall = 1, exact_matches = 0, fuzzy_score = 0,
          semantic_matches = []\<rparr>, s)
      else if ground_truth = [] \<or> predicted = [] then
        (\<lparr>f1_score = 0, precision = 0, recall = 0, exact_matches = 0, fuzzy_score = 0,
          semantic_matches = []\<rparr>, s)
      else
        (let pred_normalized = map normalize_eif_name predicted;
             truth_normalized = map normalize_eif_name ground_truth;
             pred_set = set pred_normalized;
             truth_set = set truth_normalized;
             exact = card (pred_set \<inter> truth_set);
             unmatched_pred = filter (\<lambda>(p, orig). p \<notin> truth_set) (zip pred_normalized predicted);
             unmatched_truth = filter (\<lambda>(t, orig). t \<notin> pred_set) (zip truth_normalized ground_truth)
         in case match_loop lm use_lm_semantic unmatched_truth unmatched_pred (0, {}, [], s) of
              (fuzzy, matched_truth, match_details, s') \<Rightarrow>
                (let total_matches = real exact + fuzzy;
                     p = total_matches / real (length predicted);
                     r = total_matches / real (length ground_truth);
                     f1 = (if p + r = 0 then 0 else 2 * (p * r) / (p + r))
                 in (\<lparr>f1_score = f1, precision = p, recall = r, exact_matches = exact,
                      fuzzy_score = fuzzy, semantic_matches = match_details\<rparr>, s'))))"

section \<open>Definitions used in the statements and proofs\<close>

text \<open>The invariant of the outer loop: \<open>matched_truth\<close> holds exactly the ground-truth names
  of the matches so far, these names are pairwise different, \<open>fuzzy_score\<close> is the sum of
  the scores of the matches, and each match has a score above 0.7 and at most 1 and a
  ground-truth item of \<open>unmatched_truth\<close> with a non-empty normalised name.\<close>

definition loop_inv :: "(ustr \<times> ustr) list \<Rightarrow> real \<times> ustr set \<times> match_detail list \<times> 's \<Rightarrow> bool" where
  "loop_inv ut acc = (case acc of (fuzzy, matched, details, s) \<Rightarrow>
     matched = set (map m_truth details) \<and> distinct (map m_truth details) \<and>
     fuzzy = sum_list (map m_score details) \<and>
     list_all (\<lambda>m. 7/10 < m_score m \<and> m_score m \<le> 1 \<and>
        (\<exists>bm. bm \<noteq> [] \<and> (bm, m_truth m) \<in> set ut)) details)"

text \<open>A language model that answers every query with the same text and keeps no state.\<close>

definition lm_says :: "ustr \<Rightarrow> unit lm" where
  "lm_says reply name1 name2 s = (Texts [reply], s)"

text \<open>The inputs of the extraction claim. \<open>job_list_line\<close> is the label of the source
  (\<open>eif_label\<close>), the full-width colon, and \<open>[Job Info, Employee Info]\<close>; \<open>none_line\<close> is the
  same label and colon followed by \<open>none\<close>.\<close>

definition job_list_line :: ustr where
  "job_list_line = eif_label @ [0xFF1A] @ u ''[Job Info, Employee Info]''"

definition none_line :: ustr where
  "none_line = eif_label @ [0xFF1A] @ u ''none''"

text \<open>A list label in a text: the word \<open>liebiao\<close> ("list") followed, directly or after one or
  two asterisks, by a colon (full-width or ASCII), or the label \<open>perspective_label\<close> followed
  by a colon. These are the ends of the labels of all the patterns that are tried before
  the final line is read. \<open>label_colon_at t\<close> says that \<open>t\<close> begins with one,
  \<open>label_positions i t\<close> are the positions of \<open>t\<close>, counted from \<open>i\<close>, where one stands, and
  \<open>labelled_earlier pre\<close> says that the text \<open>pre\<close> holds one.\<close>

definition label_heads :: "ustr list" where
  "label_heads =
     concat (map (\<lambda>c. [liebiao @ [c], liebiao @ [42, c], liebiao @ [42, 42, c],
                         perspective_label @ [c]]) [0xFF1A, 58])"

definition label_colon_at :: "ustr \<Rightarrow> bool" where
  "label_colon_at t = list_ex (\<lambda>h. prefix h t) label_heads"

fun label_positions :: "nat \<Rightarrow> ustr \<Rightarrow> nat list" where
  "label_positions i [] = []"
| "label_positions i (c # s) =
     (if label_colon_at (c # s) then i # label_positions (Suc i) s
      else label_positions (Suc i) s)"

definition labelled_earlier :: "ustr \<Rightarrow> bool" where
  "labelled_earlier pre = (label_positions 0 pre \<noteq> [])"

text \<open>An analysis of 524 characters that holds no label, for the examples with a text of
  more than 500 characters.\<close>

definition analysis_text :: ustr where
  "analysis_text =
     u ''The requirement describes a payroll module. It reads job data and empl'' @
     u ''oyee data that are maintained by the human resources application. The '' @
     u ''payroll module only references these files and never updates them, so '' @
     u ''both are external interface files. The salary table is maintained insi'' @
     u ''de the boundary and is an internal logical file, not an external one. '' @
     u ''The tax rates come from a configuration screen of the same application'' @
     u '' and are internal as well. The two referenced groups of data are count'' @
     u ''ed once each. Conclusion follows. ''"

text \<open>The first decimal number of a text, in the words of the specification: the digits
  from the first digit on, and a point with the digits behind it when a point follows
  them directly.\<close>

definition number_prefix :: "ustr \<Rightarrow> ustr" where
  "number_prefix s =
     (let int_part = takeWhile py_isdigit s;
          after = dropWhile py_isdigit s
      in case after of
           [] \<Rightarrow> int_part
         | c # rest \<Rightarrow> if c = 46 then int_part @ [46] @ takeWhile py_isdigit rest else int_part)"

definition first_number :: "ustr \<Rightarrow> ustr" where
  "first_number text = number_prefix (dropWhile (\<lambda>c. \<not> py_isdigit c) text)"

text \<open>The normaliser in the order of the specification's words: trim, lower-case, strip the
  content inside \<open>()\<close> and inside the full-width parentheses, collapse whitespace runs.\<close>

definition normalize_spec :: "ustr \<Rightarrow> ustr" where
  "normalize_spec name0 =
     (let name1 = py_strip name0;
          name2 = py_lower name1;
          name3 = re_sub_del paren_cjk (re_sub_del paren_ascii name2)
      in py_join [32] (py_split name3))"

section \<open>Evaluation on concrete inputs\<close>

lemmas str_defs = u_def py_strip_def py_lower_def lower_cp_def py_isspace_def py_isdigit_def
  py_split_def cls_has_def re_search_def re_sub_del_def Plus_def

lemmas norm_defs = normalize_eif_name_def paren_ascii_def paren_cjk_def

lemmas score_defs = calculate_eif_similarity_def pair_similarity_def accepted_def
  string_similarity_def jaccard_def check_eif_semantic_similarity_def llm_attempt_def
  score_number_def py_float_def digits_value_def

lemmas pat_defs = ordinal_prefix_def bullet_prefix_def square_bracket_def zuizhong_def gongnengdian_def
  liebiao_def eif_label_def improved_label_def perspective_label_def ruxia_def colon_def ws_def
  bracketed_def to_eol_def to_eol_or_paren_def opt_star_def final_patterns_def tail_list_def
  numbered_line_def numbered_section_def bold_name_def patterns_def lead_in_genju_def
  lead_in_shibiechu_def dash_def bold_dash_name_def eif_section_def plain_numbered_name_def
  separators_def none_words_def re_findall_def re_split_def PlusLazy_def

lemmas stage_defs = clean_eif_name_def text_tail_list_def long_text_stage_def numbered_after_title_def
  simple_list_def single_name_def bold_list_def plain_numbered_list_def unlabelled_stage_def
  extract_answer_def

section \<open>Bounds of the similarity scores\<close>

lemma jaccard_bounds: "0 \<le> jaccard A B \<and> jaccard A B \<le> 1"
proof (cases "finite (A \<union> B)")
  case True
  have "card (A \<inter> B) \<le> card (A \<union> B)"
    by (rule card_mono[OF True]) blast
  then have "real (card (A \<inter> B)) \<le> real (card (A \<union> B))"
    by (rule iffD2[OF of_nat_le_iff])
  then show ?thesis
    unfolding jaccard_def Let_def by (simp add: divide_le_eq_1)
next
  case False
  then have "card (A \<union> B) = 0" by (rule card.infinite)
  then show ?thesis unfolding jaccard_def Let_def by simp
qed

lemma string_similarity_bounds: "0 \<le> string_similarity s1 s2 \<and> string_similarity s1 s2 \<le> 1"
  using jaccard_bounds[of "set s1" "set s2"] jaccard_bounds[of "set (py_split s1)" "set (py_split s2)"]
  by (simp add: string_similarity_def)


lemma llm_attempt_bounds: "llm_attempt reply = Returned x \<Longrightarrow> 0 \<le> x \<and> x \<le> 1"
  by (auto simp: llm_attempt_def Let_def split: lm_reply.splits list.splits option.splits)


lemma check_bounds:
  "0 \<le> fst (check_eif_semantic_similarity n1 n2 lm use s) \<and>
   fst (check_eif_semantic_similarity n1 n2 lm use s) \<le> 1"
  using string_similarity_bounds[of n1 n2]
  by (auto simp: check_eif_semantic_similarity_def split: option.splits prod.splits attempt.splits
      dest: llm_attempt_bounds)


lemma pair_similarity_bounds:
  "0 \<le> fst (pair_similarity lm use pred truth s) \<and> fst (pair_similarity lm use pred truth s) \<le> 1"
  by (cases pred; cases truth) (simp add: pair_similarity_def check_bounds string_similarity_bounds)


lemma best_match_loop_max:
  "best_match_loop lm use pred matched ut (mx0, b0, s0) = (mx, b, s') \<Longrightarrow>
   0 \<le> mx0 \<Longrightarrow> mx0 \<le> 1 \<Longrightarrow> 0 \<le> mx \<and> mx \<le> 1"
proof (induction ut arbitrary: mx0 b0 s0)
  case Nil
  then show ?case by simp
next
  case (Cons t ut)
  show ?case
  proof (cases "snd t \<in> matched")
    case True
    with Cons show ?thesis by simp
  next
    case False
    obtain x s1 where ps: "pair_similarity lm use pred t s0 = (x, s1)" by force
    have xb: "0 \<le> x \<and> x \<le> 1" using pair_similarity_bounds[of lm use pred t s0] ps by simp
    show ?thesis
    proof (cases "x > mx0")
      case True
      with Cons.prems False ps have "best_match_loop lm use pred matched ut (x, Some t, s1) = (mx, b, s')"
        by simp
      from Cons.IH[OF this] xb show ?thesis by simp
    next
      case F: False
      with Cons.prems False ps have "best_match_loop lm use pred matched ut (mx0, b0, s1) = (mx, b, s')"
        by simp
      from Cons.IH[OF this] Cons.prems show ?thesis by simp
    qed
  qed
qed


lemma best_match_loop_best:
  "best_match_loop lm use pred matched ut (mx0, b0, s0) = (mx, b, s') \<Longrightarrow>
   b = b0 \<or> (\<exists>t \<in> set ut. b = Some t \<and> snd t \<notin> matched)"
proof (induction ut arbitrary: mx0 b0 s0)
  case Nil
  then show ?case by simp
next
  case (Cons t ut)
  show ?case
  proof (cases "snd t \<in> matched")
    case True
    with Cons.prems have "best_match_loop lm use pred matched ut (mx0, b0, s0) = (mx, b, s')" by simp
    from Cons.IH[OF this] show ?thesis by auto
  next
    case False
    obtain x s1 where ps: "pair_similarity lm use pred t s0 = (x, s1)" by force
    show ?thesis
    proof (cases "x > mx0")
      case True
      with Cons.prems False ps have "best_match_loop lm use pred matched ut (x, Some t, s1) = (mx, b, s')"
        by simp
      from Cons.IH[OF this] False show ?thesis by auto
    next
      case F: False
      with Cons.prems False ps have "best_match_loop lm use pred matched ut (mx0, b0, s1) = (mx, b, s')"
        by simp
      from Cons.IH[OF this] show ?thesis by auto
    qed
  qed
qed



lemma accepted_SomeD:
  "accepted mx b = Some orig \<Longrightarrow> \<exists>bm. b = Some (bm, orig) \<and> mx > 7/10 \<and> bm \<noteq> []"
  by (auto simp: accepted_def split: option.splits prod.splits if_splits)


lemma match_loop_inv:
  "loop_inv ut acc \<Longrightarrow> loop_inv ut (match_loop lm use ut preds acc)"
proof (induction preds arbitrary: acc)
  case Nil
  then show ?case by simp
next
  case (Cons pred preds)
  obtain fuzzy matched details s where acc: "acc = (fuzzy, matched, details, s)"
    by (cases acc) auto
  obtain mx b s' where bl: "best_match_loop lm use pred matched ut (0, None, s) = (mx, b, s')"
    by (cases "best_match_loop lm use pred matched ut (0, None, s)") auto
  have mxb: "0 \<le> mx \<and> mx \<le> 1" using best_match_loop_max[OF bl] by simp
  show ?case
  proof (cases "accepted mx b")
    case None
    have "loop_inv ut (fuzzy, matched, details, s')"
      using Cons.prems by (simp add: loop_inv_def acc)
    from Cons.IH[OF this] show ?thesis using acc bl None by simp
  next
    case (Some orig)
    from accepted_SomeD[OF Some] obtain bm where b: "b = Some (bm, orig)" "mx > 7/10" "bm \<noteq> []"
      by blast
    from best_match_loop_best[OF bl] b have mem: "(bm, orig) \<in> set ut" "orig \<notin> matched"
      by auto
    have "loop_inv ut (fuzzy + mx, insert orig matched,
        details @ [\<lparr>m_pred = snd pred, m_truth = orig, m_score = mx\<rparr>], s')"
      using Cons.prems mem b mxb by (auto simp: loop_inv_def acc)
    from Cons.IH[OF this] show ?thesis using acc bl Some by simp
  qed
qed


lemma match_loop_preds:
  "\<exists>new. fst (snd (snd (match_loop lm use ut preds acc))) = fst (snd (snd acc)) @ new \<and>
     subseq (map m_pred new) (map snd preds)"
proof (induction preds arbitrary: acc)
  case Nil
  then show ?case by simp
next
  case (Cons pred preds)
  obtain fuzzy matched details s where acc: "acc = (fuzzy, matched, details, s)"
    by (cases acc) auto
  obtain mx b s' where bl: "best_match_loop lm use pred matched ut (0, None, s) = (mx, b, s')"
    by (cases "best_match_loop lm use pred matched ut (0, None, s)") auto
  show ?case
  proof (cases "accepted mx b")
    case None
    from Cons.IH[of "(fuzzy, matched, details, s')"] obtain new where
      "fst (snd (snd (match_loop lm use ut preds (fuzzy, matched, details, s')))) = details @ new"
      "subseq (map m_pred new) (map snd preds)" by auto
    then show ?thesis using acc bl None by auto
  next
    case (Some orig)
    let ?d = "\<lparr>m_pred = snd pred, m_truth = orig, m_score = mx\<rparr>"
    from Cons.IH[of "(fuzzy + mx, insert orig matched, details @ [?d], s')"] obtain new where
      n: "fst (snd (snd (match_loop lm use ut preds (fuzzy + mx, insert orig matched, details @ [?d], s'))))
         = (details @ [?d]) @ new"
      "subseq (map m_pred new) (map snd preds)" by auto
    have "subseq (map m_pred (?d # new)) (map snd (pred # preds))" using n(2) by simp
    with n(1) show ?thesis using acc bl Some by (intro exI[of _ "?d # new"]) simp
  qed
qed

lemma unmatched_zip:
  "filter (\<lambda>(p, orig). p \<notin> T) (zip (map f ys) ys) = map (\<lambda>y. (f y, y)) (filter (\<lambda>y. f y \<notin> T) ys)"
  by (induction ys) auto

lemma exact_plus_unmatched:
  "card (f ` set ys \<inter> T) + length (filter (\<lambda>y. f y \<notin> T) ys) \<le> length ys"
proof -
  have "f ` set ys \<inter> T = f ` set (filter (\<lambda>y. f y \<in> T) ys)" by auto
  then have "card (f ` set ys \<inter> T) \<le> card (set (filter (\<lambda>y. f y \<in> T) ys))"
    by (simp add: card_image_le)
  also have "\<dots> \<le> length (filter (\<lambda>y. f y \<in> T) ys)" by (rule card_length)
  finally have "card (f ` set ys \<inter> T) \<le> length (filter (\<lambda>y. f y \<in> T) ys)" .
  moreover have "length (filter (\<lambda>y. f y \<in> T) ys) + length (filter (\<lambda>y. f y \<notin> T) ys) = length ys"
    using sum_length_filter_compl[of "\<lambda>y. f y \<in> T" ys] by simp
  ultimately show ?thesis by linarith
qed

lemma loop_inv_counts:
  assumes "loop_inv ut (fuzzy, matched, details, s)"
  shows "0 \<le> fuzzy \<and> fuzzy \<le> real (length details) \<and> length details \<le> length ut"
proof -
  from assms have m: "matched = set (map m_truth details)" and d: "distinct (map m_truth details)"
    and f: "fuzzy = sum_list (map m_score details)"
    and a: "list_all (\<lambda>m. 7/10 < m_score m \<and> m_score m \<le> 1 \<and>
        (\<exists>bm. bm \<noteq> [] \<and> (bm, m_truth m) \<in> set ut)) details"
    by (simp_all add: loop_inv_def)
  have sc: "\<forall>x \<in> set details. 0 \<le> m_score x \<and> m_score x \<le> 1"
    using a by (auto simp: list_all_iff)
  have "0 \<le> sum_list (map m_score details)"
    using sc by (intro sum_list_nonneg) auto
  moreover have "sum_list (map m_score details) \<le> sum_list (map (\<lambda>x. 1) details)"
    using sc by (intro sum_list_mono) auto
  then have "sum_list (map m_score details) \<le> real (length details)"
    by (simp add: sum_list_triv)
  moreover have "length details \<le> length ut"
  proof -
    have "set (map m_truth details) \<subseteq> snd ` set ut"
      using a by (force simp: list_all_iff)
    then have "card (set (map m_truth details)) \<le> card (snd ` set ut)"
      by (intro card_mono) auto
    also have "\<dots> \<le> card (set ut)" by (intro card_image_le) auto
    also have "\<dots> \<le> length ut" by (rule card_length)
    finally show ?thesis using distinct_card[OF d] by simp
  qed
  ultimately show ?thesis using f by simp
qed

lemma loop_inv_init: "loop_inv ut (0, {}, [], s)"
  by (simp add: loop_inv_def)

lemma f1_bounds:
  fixes p r :: real
  assumes "0 \<le> p" "p \<le> 1" "0 \<le> r" "r \<le> 1"
  shows "0 \<le> (if p + r = 0 then 0 else 2 * (p * r) / (p + r)) \<and>
         (if p + r = 0 then 0 else 2 * (p * r) / (p + r)) \<le> 1"
proof (cases "p + r = 0")
  case True
  then show ?thesis by simp
next
  case False
  with assms have pos: "0 < p + r" by linarith
  have "p * r \<le> p * 1" using assms by (intro mult_left_mono) auto
  moreover have "p * r \<le> 1 * r" using assms by (intro mult_right_mono) auto
  ultimately have "2 * (p * r) \<le> p + r" by simp
  moreover have "0 \<le> p * r" using assms by simp
  ultimately show ?thesis using pos False by (simp add: divide_le_eq_1)
qed

text \<open>The shape of the report when both lists are non-empty.\<close>

lemma calculate_nonempty:
  assumes "predicted \<noteq> []" "ground_truth \<noteq> []"
  defines "pred_set \<equiv> normalize_eif_name ` set predicted"
  defines "truth_set \<equiv> normalize_eif_name ` set ground_truth"
  defines "up \<equiv> map (\<lambda>y. (normalize_eif_name y, y)) (filter (\<lambda>y. normalize_eif_name y \<notin> truth_set) predicted)"
  defines "ut \<equiv> map (\<lambda>y. (normalize_eif_name y, y)) (filter (\<lambda>y. normalize_eif_name y \<notin> pred_set) ground_truth)"
  shows "\<exists>fuzzy matched details s'.
     match_loop lm use ut up (0, {}, [], s) = (fuzzy, matched, details, s') \<and>
     calculate_eif_similarity predicted ground_truth lm use s =
       (let total = real (card (pred_set \<inter> truth_set)) + fuzzy;
            p = total / real (length predicted);
            r = total / real (length ground_truth)
        in (\<lparr>f1_score = (if p + r = 0 then 0 else 2 * (p * r) / (p + r)), precision = p, recall = r,
             exact_matches = card (pred_set \<inter> truth_set), fuzzy_score = fuzzy,
             semantic_matches = details\<rparr>, s'))"
proof -
  obtain fuzzy matched details s' where
    ml: "match_loop lm use ut up (0, {}, [], s) = (fuzzy, matched, details, s')"
    by (cases "match_loop lm use ut up (0, {}, [], s)") auto
  show ?thesis
    using assms(1,2) ml
    by (simp add: calculate_eif_similarity_def Let_def unmatched_zip pred_set_def truth_set_def
        up_def ut_def)
qed

section \<open>The report and the loop invariant\<close>

lemma subseq_set_mono: "subseq xs ys \<Longrightarrow> set xs \<subseteq> set ys"
  by (induction rule: list_emb.induct) auto

lemma report_matches:
  fixes lm :: "'s lm option" and use :: bool and s :: 's
  assumes "predicted \<noteq> []" "ground_truth \<noteq> []"
  defines "pred_set \<equiv> normalize_eif_name ` set predicted"
  defines "truth_set \<equiv> normalize_eif_name ` set ground_truth"
  defines "up \<equiv> map (\<lambda>y. (normalize_eif_name y, y)) (filter (\<lambda>y. normalize_eif_name y \<notin> truth_set) predicted)"
  defines "ut \<equiv> map (\<lambda>y. (normalize_eif_name y, y)) (filter (\<lambda>y. normalize_eif_name y \<notin> pred_set) ground_truth)"
  defines "r \<equiv> fst (calculate_eif_similarity predicted ground_truth lm use s)"
  shows "\<exists>matched s'. match_loop lm use ut up (0, {}, [], s) = (fuzzy_score r, matched, semantic_matches r, s')
      \<and> loop_inv ut (fuzzy_score r, matched, semantic_matches r, s')
      \<and> subseq (map m_pred (semantic_matches r)) (map snd up)
      \<and> exact_matches r = card (pred_set \<inter> truth_set)"
proof -
  from calculate_nonempty[OF assms(1,2), of lm use s] obtain fuzzy matched details s' where
    ml: "match_loop lm use ut up (0, {}, [], s) = (fuzzy, matched, details, s')" and
    res: "calculate_eif_similarity predicted ground_truth lm use s =
       (let total = real (card (pred_set \<inter> truth_set)) + fuzzy;
            p = total / real (length predicted);
            r = total / real (length ground_truth)
        in (\<lparr>f1_score = (if p + r = 0 then 0 else 2 * (p * r) / (p + r)), precision = p, recall = r,
             exact_matches = card (pred_set \<inter> truth_set), fuzzy_score = fuzzy,
             semantic_matches = details\<rparr>, s'))"
    unfolding pred_set_def truth_set_def up_def ut_def by blast
  have r: "fuzzy_score r = fuzzy" "semantic_matches r = details" "exact_matches r = card (pred_set \<inter> truth_set)"
    by (simp_all add: r_def res Let_def)
  have inv: "loop_inv ut (fuzzy, matched, details, s')"
    using match_loop_inv[OF loop_inv_init, of ut lm use up s] ml by simp
  from match_loop_preds[of lm use ut up "(0, {}, [], s)"] ml
  have "subseq (map m_pred details) (map snd up)" by simp
  with ml inv r show ?thesis by auto
qed

lemma report_empty:
  "predicted = [] \<or> ground_truth = [] \<Longrightarrow>
   semantic_matches (fst (calculate_eif_similarity predicted ground_truth lm use s)) = [] \<and>
   exact_matches (fst (calculate_eif_similarity predicted ground_truth lm use s)) = 0 \<and>
   fuzzy_score (fst (calculate_eif_similarity predicted ground_truth lm use s)) = 0"
  by (auto simp: calculate_eif_similarity_def)

section \<open>Searching a text that ends in a labelled line\<close>

text \<open>A search skips the positions where the pattern does not match.\<close>

lemma search_skip:
  "(\<And>i. i < length pre \<Longrightarrow> rmatch r (Mst (p + i) (drop i pre @ suf) None) Some = None) \<Longrightarrow>
   search_from r p (pre @ suf) = search_from r (p + length pre) suf"
proof (induction pre arbitrary: p)
  case Nil
  then show ?case by simp
next
  case (Cons c pre)
  from Cons.prems[of 0] have h: "rmatch r (Mst p (c # pre @ suf) None) Some = None" by simp
  have "search_from r (Suc p) (pre @ suf) = search_from r (Suc p + length pre) suf"
  proof (rule Cons.IH)
    fix i assume "i < length pre"
    then show "rmatch r (Mst (Suc p + i) (drop i pre @ suf) None) Some = None"
      using Cons.prems[of "Suc i"] by simp
  qed
  with h show ?case by simp
qed

text \<open>A pattern that begins with a literal finds nothing in a text without the first
  character of the literal.\<close>

lemma lit_first_fail:
  "w \<noteq> [] \<Longrightarrow> hd w \<notin> set t \<Longrightarrow> rmatch (Seq (Lit w) R) (Mst q t g) k = None"
  by (cases t; cases w) auto

lemma lit_search_none:
  "w \<noteq> [] \<Longrightarrow> hd w \<notin> set s \<Longrightarrow> search_from (Seq (Lit w) R) p s = None"
proof (induction s arbitrary: p)
  case Nil
  then show ?case using lit_first_fail[of w "[]" R p None Some] by simp
next
  case (Cons c s)
  then have "rmatch (Seq (Lit w) R) (Mst p (c # s) None) Some = None"
    by (intro lit_first_fail) auto
  moreover have "search_from (Seq (Lit w) R) (Suc p) s = None"
    using Cons by simp
  ultimately show ?case by simp
qed

lemma py_strip_append:
  assumes "suf \<noteq> []" "\<not> py_isspace (hd suf)" "\<not> py_isspace (last suf)"
  shows "py_strip (pre @ suf) = dropWhile py_isspace pre @ suf"
proof -
  obtain a l where al: "suf = a # l" using assms(1) by (cases suf) auto
  have 1: "dropWhile py_isspace (pre @ suf) = dropWhile py_isspace pre @ suf"
    using assms(2) by (simp add: dropWhile_append al)
  obtain b m where bm: "rev suf = b # m" using assms(1) by (cases "rev suf") auto
  then have "b = last suf" using assms(1) by (metis last_rev list.sel(1) rev_rev_ident hd_rev)
  then have b: "\<not> py_isspace b" using assms(3) by simp
  have 2: "dropWhile py_isspace (rev (y @ suf)) = rev (y @ suf)" for y
    using b by (simp add: bm)
  show ?thesis unfolding py_strip_def 1 2 by simp
qed

lemma job_list_line_strip:
  "py_strip (pre @ job_list_line) = dropWhile py_isspace pre @ job_list_line"
  by (rule py_strip_append) (simp_all add: job_list_line_def str_defs pat_defs)

lemma none_line_strip:
  "py_strip (pre @ none_line) = dropWhile py_isspace pre @ none_line"
  by (rule py_strip_append) (simp_all add: none_line_def str_defs pat_defs)

text \<open>Where a list label stands in a text that ends in a labelled line.\<close>

lemmas label_defs = label_heads_def label_colon_at_def liebiao_def perspective_label_def
  gongnengdian_def eif_label_def u_def

lemma label_colon_at_Nil: "\<not> label_colon_at []"
  by (simp add: label_defs)

lemma label_position_mem:
  "label_colon_at (drop j s) \<Longrightarrow> i + j \<in> set (label_positions i s)"
proof (induction s arbitrary: i j)
  case Nil
  then show ?case by (simp add: label_colon_at_Nil)
next
  case (Cons c s)
  show ?case
  proof (cases j)
    case 0
    with Cons.prems show ?thesis by simp
  next
    case (Suc j')
    with Cons.prems have "label_colon_at (drop j' s)" by simp
    from Cons.IH[OF this, of "Suc i"] show ?thesis using Suc by simp
  qed
qed

lemma labelled_earlierI: "label_colon_at (drop j s) \<Longrightarrow> labelled_earlier s"
  using label_position_mem[of j s 0] by (auto simp: labelled_earlier_def)

lemma line_positions:
  "label_positions 0 job_list_line = [6]" "label_positions 0 none_line = [6]"
  by (simp_all add: job_list_line_def none_line_def label_defs)

lemma no_straddle_heads:
  "list_all (\<lambda>h. list_all (\<lambda>us. us = [] \<or> us = h \<or> \<not> prefix us (eif_label @ c0 # rest))
                     (suffixes h)) label_heads"
  by (simp add: label_defs)

lemma no_straddle:
  assumes "y \<noteq> []" "label_colon_at (y @ eif_label @ c0 # rest)"
  shows "label_colon_at y"
proof -
  from assms(2) obtain h where h: "h \<in> set label_heads" "prefix h (y @ eif_label @ c0 # rest)"
    by (auto simp: label_colon_at_def list_ex_iff)
  from h(2) consider "prefix h y" | us where "h = y @ us" "prefix us (eif_label @ c0 # rest)"
    by (auto simp: prefix_append)
  then show ?thesis
  proof cases
    case 1
    with h(1) show ?thesis by (auto simp: label_colon_at_def list_ex_iff)
  next
    case 2
    have "us \<in> set (suffixes h)" using 2(1) by (simp add: suffix_def)
    with no_straddle_heads[of c0 rest] h(1)
    have "us = [] \<or> us = h \<or> \<not> prefix us (eif_label @ c0 # rest)"
      by (auto simp: list_all_iff)
    with 2 assms(1) have "us = []" by auto
    with 2(1) have "prefix h y" by simp
    with h(1) show ?thesis by (auto simp: label_colon_at_def list_ex_iff)
  qed
qed

lemma label_only_at_line:
  assumes nx: "\<not> labelled_earlier x"
    and line: "line = eif_label @ c0 # rest"
    and occ: "label_positions 0 line = [6]"
    and at: "label_colon_at (drop m (x @ line))"
  shows "m = length x + 6"
proof (cases "m < length x")
  case True
  then have "drop m x \<noteq> []" by simp
  moreover have "label_colon_at (drop m x @ eif_label @ c0 # rest)"
    using at True by (simp add: line)
  ultimately have "label_colon_at (drop m x)" by (rule no_straddle)
  then have "labelled_earlier x" by (rule labelled_earlierI)
  with nx show ?thesis by simp
next
  case False
  then have "drop m (x @ line) = drop (m - length x) line" by simp
  with at have "label_colon_at (drop (m - length x) line)" by simp
  from label_position_mem[OF this, of 0] occ have "m - length x = 6" by simp
  with False show ?thesis by simp
qed


lemma lit_matchD:
  "rmatch (Seq (Lit w) R) (Mst q t g) k = Some r \<Longrightarrow>
   take (length w) t = w \<and> rmatch R (Mst (q + length w) (drop (length w) t) g) k = Some r"
  by (simp split: if_splits)

lemma colon_matchD:
  "rmatch (Seq colon R) (Mst q t g) k = Some r \<Longrightarrow>
   \<exists>c t'. t = c # t' \<and> (c = 0xFF1A \<or> c = 58) \<and> rmatch R (Mst (Suc q) t' g) k = Some r"
  by (cases t) (auto simp: colon_def cls_has_def split: if_splits)

lemma opt_star_matchD:
  "rmatch (Seq opt_star R) (Mst q t g) k = Some r \<Longrightarrow>
   (\<exists>t'. t = 42 # t' \<and> rmatch R (Mst (Suc q) t' g) k = Some r) \<or> rmatch R (Mst q t g) k = Some r"
  by (cases t) (auto simp: opt_star_def split: if_splits option.splits)

lemma lazy_any_matchD:
  "rmatch (Seq (StarLazy DotAll) R) (Mst q t g) k = Some r \<Longrightarrow>
   \<exists>n q'. n \<le> length t \<and> rmatch R (Mst q' (drop n t) g) k = Some r"
proof (induction t arbitrary: q)
  case Nil
  then show ?case by (auto split: option.splits)
next
  case (Cons c t)
  show ?case
  proof (cases "rmatch R (Mst q (c # t) g) k")
    case (Some r')
    with Cons.prems have "rmatch R (Mst q (drop 0 (c # t)) g) k = Some r" by simp
    then show ?thesis by blast
  next
    case None
    with Cons.prems have "rmatch (Seq (StarLazy DotAll) R) (Mst (Suc q) t g) k = Some r"
      by simp
    from Cons.IH[OF this] obtain n q' where "n \<le> length t" "rmatch R (Mst q' (drop n t) g) k = Some r"
      by blast
    then have "Suc n \<le> length (c # t)" "rmatch R (Mst q' (drop (Suc n) (c # t)) g) k = Some r"
      by simp_all
    then show ?thesis by blast
  qed
qed

lemma search_sound:
  "search_from r p s = Some (Match b e g) \<Longrightarrow>
   \<exists>i rest. i \<le> length s \<and> rmatch r (Mst (p + i) (drop i s) None) Some = Some (Mst e rest g)"
proof (induction s arbitrary: p)
  case Nil
  then have "\<exists>rest. rmatch r (Mst (p + 0) (drop 0 []) None) Some = Some (Mst e rest g)"
    by (auto split: option.splits mst.splits)
  then show ?case by blast
next
  case (Cons c s)
  show ?case
  proof (cases "rmatch r (Mst p (c # s) None) Some")
    case None
    with Cons.prems have "search_from r (Suc p) s = Some (Match b e g)" by simp
    from Cons.IH[OF this] obtain i rest where
      "i \<le> length s" "rmatch r (Mst (Suc p + i) (drop i s) None) Some = Some (Mst e rest g)"
      by blast
    then have "Suc i \<le> length (c # s)"
      "rmatch r (Mst (p + Suc i) (drop (Suc i) (c # s)) None) Some = Some (Mst e rest g)"
      by simp_all
    then show ?thesis by blast
  next
    case (Some st)
    with Cons.prems have "\<exists>rest. rmatch r (Mst (p + 0) (drop 0 (c # s)) None) Some = Some (Mst e rest g)"
      by (cases st) auto
    then show ?thesis by blast
  qed
qed

lemma search_complete:
  "i \<le> length s \<Longrightarrow> rmatch r (Mst (p + i) (drop i s) None) Some \<noteq> None \<Longrightarrow>
   search_from r p s \<noteq> None"
proof (induction s arbitrary: p i)
  case Nil
  then show ?case by (auto split: option.splits mst.splits)
next
  case (Cons c s)
  show ?case
  proof (cases i)
    case 0
    with Cons.prems show ?thesis by (auto split: option.splits mst.splits)
  next
    case (Suc j)
    with Cons.prems have "j \<le> length s" "rmatch r (Mst (Suc p + j) (drop j s) None) Some \<noteq> None"
      by simp_all
    from Cons.IH[OF this] show ?thesis by (auto split: option.splits mst.splits)
  qed
qed

lemma label_position_D:
  "m \<in> set (label_positions i s) \<Longrightarrow> \<exists>j. m = i + j \<and> label_colon_at (drop j s)"
proof (induction s arbitrary: i)
  case Nil
  then show ?case by simp
next
  case (Cons c s)
  show ?case
  proof (cases "m = i \<and> label_colon_at (c # s)")
    case True
    then have "m = i + 0 \<and> label_colon_at (drop 0 (c # s))" by simp
    then show ?thesis by blast
  next
    case False
    with Cons.prems have "m \<in> set (label_positions (Suc i) s)" by (auto split: if_splits)
    from Cons.IH[OF this] obtain j where "m = Suc i + j" "label_colon_at (drop j s)" by blast
    then have "m = i + Suc j \<and> label_colon_at (drop (Suc j) (c # s))" by simp
    then show ?thesis by blast
  qed
qed

lemma labelled_earlierD: "labelled_earlier s \<Longrightarrow> \<exists>j. label_colon_at (drop j s)"
proof -
  assume "labelled_earlier s"
  then obtain m where "m \<in> set (label_positions 0 s)"
    by (cases "label_positions 0 s") (auto simp: labelled_earlier_def)
  from label_position_D[OF this] show ?thesis by blast
qed

lemma labelled_earlier_dropWhile:
  assumes "\<not> labelled_earlier pre"
  shows "\<not> labelled_earlier (dropWhile P pre)"
proof
  assume "labelled_earlier (dropWhile P pre)"
  from labelled_earlierD[OF this] obtain j where "label_colon_at (drop j (dropWhile P pre))"
    by blast
  then have "label_colon_at (drop (j + length (takeWhile P pre)) pre)"
    by (simp add: dropWhile_eq_drop)
  from labelled_earlierI[OF this] assms show False by simp
qed

lemma label_colon_at_first:
  "label_colon_at (c # s) \<Longrightarrow> c = 0x5217 \<or> c = 0x8BE5"
  by (auto simp: label_defs)

lemma label_free:
  assumes "0x5217 \<notin> set s" "0x8BE5 \<notin> set s"
  shows "\<not> labelled_earlier s"
proof
  assume "labelled_earlier s"
  from labelled_earlierD[OF this] obtain j where j: "label_colon_at (drop j s)" by blast
  then have "drop j s \<noteq> []" using label_colon_at_Nil by auto
  then obtain c t where ct: "drop j s = c # t" by (cases "drop j s") auto
  with j label_colon_at_first have "c = 0x5217 \<or> c = 0x8BE5" by metis
  moreover have "c \<in> set s" using ct by (metis in_set_dropD list.set_intros(1))
  ultimately show False using assms by auto
qed


lemma suffix_dropE: "suffix t s \<Longrightarrow> \<exists>i. t = drop i s"
proof -
  assume "suffix t s"
  then obtain zs where "s = zs @ t" by (auto simp: suffix_def)
  then have "t = drop (length zs) s" by simp
  then show ?thesis by blast
qed

text \<open>a list label in a text without an earlier one is the label of the final line\<close>
lemma label_at_line:
  assumes nx: "\<not> labelled_earlier x"
    and line: "line = eif_label @ c0 # rest"
    and occ: "label_positions 0 line = [6]"
    and c0: "c0 \<noteq> 42"
    and suf: "suffix t (x @ line)"
    and t: "t = w0 @ liebiao @ stars @ c # t'"
    and st: "stars = [] \<or> stars = [42] \<or> stars = [42, 42]"
    and c: "c = 0xFF1A \<or> c = 58"
  shows "stars = [] \<and> t' = rest"
proof -
  from suffix_dropE[OF suf] obtain i where i: "t = drop i (x @ line)" by blast
  have "drop (length w0) t = liebiao @ stars @ c # t'" by (subst t) simp
  then have dr: "drop (i + length w0) (x @ line) = liebiao @ stars @ c # t'"
    unfolding i by (simp only: drop_drop add.commute[of "length w0" i])
  have "label_colon_at (liebiao @ stars @ c # t')" using c st by (auto simp: label_defs)
  then have "label_colon_at (drop (i + length w0) (x @ line))" by (simp only: dr)
  from label_only_at_line[OF nx line occ this] have pos: "i + length w0 = length x + 6" .
  have "drop (length x + 6) (x @ line) = liebiao @ c0 # rest"
    by (simp add: line label_defs)
  with dr pos st c0 show ?thesis by (auto simp: label_defs)
qed

lemma perspective_not_at_line:
  assumes nx: "\<not> labelled_earlier x"
    and line: "line = eif_label @ c0 # rest"
    and occ: "label_positions 0 line = [6]"
    and suf: "suffix t (x @ line)"
    and t: "t = perspective_label @ c # t'"
    and c: "c = 0xFF1A \<or> c = 58"
  shows False
proof -
  from suffix_dropE[OF suf] obtain i where i: "t = drop i (x @ line)" by blast
  have "label_colon_at t" using c by (auto simp: t label_defs)
  then have "label_colon_at (drop i (x @ line))" by (simp only: i)
  from label_only_at_line[OF nx line occ this] have pos: "i = length x + 6" .
  have "drop (length x + 6) (x @ line) = liebiao @ c0 # rest"
    by (simp add: line label_defs)
  with i pos t show False by (simp add: label_defs)
qed

lemma lit_colon_matchD:
  assumes "rmatch (Seq (Lit w) (Seq colon R)) (Mst q t g) k = Some r"
  shows "\<exists>c t' q'. t = w @ c # t' \<and> (c = 0xFF1A \<or> c = 58) \<and> rmatch R (Mst q' t' g) k = Some r"
proof -
  from lit_matchD[OF assms] have tk: "take (length w) t = w"
    and m2: "rmatch (Seq colon R) (Mst (q + length w) (drop (length w) t) g) k = Some r"
    by auto
  from colon_matchD[OF m2] obtain c t' where
    d: "drop (length w) t = c # t'" and c: "c = 0xFF1A \<or> c = 58"
    and m3: "rmatch R (Mst (Suc (q + length w)) t' g) k = Some r"
    by blast
  have "t = take (length w) t @ drop (length w) t" by (rule append_take_drop_id[symmetric])
  then have "t = w @ c # t'" unfolding tk d .
  with c m3 show ?thesis by blast
qed

lemma stars_colon_matchD:
  assumes "rmatch (Seq opt_star (Seq opt_star (Seq colon R))) (Mst q t g) k = Some r"
  shows "\<exists>stars c t' q'. t = stars @ c # t' \<and> (stars = [] \<or> stars = [42] \<or> stars = [42, 42])
          \<and> (c = 0xFF1A \<or> c = 58) \<and> rmatch R (Mst q' t' g) k = Some r"
proof -
  from opt_star_matchD[OF assms] consider
    (s1) t1 where "t = 42 # t1" "rmatch (Seq opt_star (Seq colon R)) (Mst (Suc q) t1 g) k = Some r"
    | (s0) "rmatch (Seq opt_star (Seq colon R)) (Mst q t g) k = Some r"
    by blast
  then show ?thesis
  proof cases
    case s1
    from opt_star_matchD[OF s1(2)] consider
      (s2) t2 where "t1 = 42 # t2" "rmatch (Seq colon R) (Mst (Suc (Suc q)) t2 g) k = Some r"
      | (s1') "rmatch (Seq colon R) (Mst (Suc q) t1 g) k = Some r"
      by blast
    then show ?thesis
    proof cases
      case s2
      from colon_matchD[OF s2(2)] obtain c t' where
        "t2 = c # t'" "c = 0xFF1A \<or> c = 58" "rmatch R (Mst (Suc (Suc (Suc q))) t' g) k = Some r"
        by blast
      with s1(1) s2(1) have "t = [42, 42] @ c # t'" by simp
      with \<open>c = 0xFF1A \<or> c = 58\<close> \<open>rmatch R (Mst (Suc (Suc (Suc q))) t' g) k = Some r\<close>
      show ?thesis by blast
    next
      case s1'
      from colon_matchD[OF s1'] obtain c t' where
        "t1 = c # t'" "c = 0xFF1A \<or> c = 58" "rmatch R (Mst (Suc (Suc q)) t' g) k = Some r"
        by blast
      with s1(1) have "t = [42] @ c # t'" by simp
      with \<open>c = 0xFF1A \<or> c = 58\<close> \<open>rmatch R (Mst (Suc (Suc q)) t' g) k = Some r\<close>
      show ?thesis by blast
    qed
  next
    case s0
    from opt_star_matchD[OF s0] consider
      (s2) t2 where "t = 42 # t2" "rmatch (Seq colon R) (Mst (Suc q) t2 g) k = Some r"
      | (s00) "rmatch (Seq colon R) (Mst q t g) k = Some r"
      by blast
    then show ?thesis
    proof cases
      case s2
      from colon_matchD[OF s2(2)] obtain c t' where
        "t2 = c # t'" "c = 0xFF1A \<or> c = 58" "rmatch R (Mst (Suc (Suc q)) t' g) k = Some r"
        by blast
      with s2(1) have "t = [42] @ c # t'" by simp
      with \<open>c = 0xFF1A \<or> c = 58\<close> \<open>rmatch R (Mst (Suc (Suc q)) t' g) k = Some r\<close>
      show ?thesis by blast
    next
      case s00
      from colon_matchD[OF s00] obtain c t' where
        "t = c # t'" "c = 0xFF1A \<or> c = 58" "rmatch R (Mst (Suc q) t' g) k = Some r"
        by blast
      then have "t = [] @ c # t'" by simp
      with \<open>c = 0xFF1A \<or> c = 58\<close> \<open>rmatch R (Mst (Suc q) t' g) k = Some r\<close>
      show ?thesis by blast
    qed
  qed
qed

lemma opt_star_suffix:
  assumes "rmatch (Seq opt_star Q) (Mst q t g) k = Some r"
  shows "\<exists>q' t'. suffix t' t \<and> rmatch Q (Mst q' t' g) k = Some r"
proof -
  from opt_star_matchD[OF assms] consider
    t' where "t = 42 # t'" "rmatch Q (Mst (Suc q) t' g) k = Some r"
    | "rmatch Q (Mst q t g) k = Some r"
    by blast
  then show ?thesis
  proof cases
    case 1
    have "suffix t' t" unfolding 1(1) by (rule suffix_ConsI) simp
    with 1(2) show ?thesis by blast
  next
    case 2
    have "suffix t t" by simp
    with 2 show ?thesis by blast
  qed
qed

lemma lit_suffix:
  assumes "rmatch (Seq (Lit w) Q) (Mst q t g) k = Some r"
  shows "\<exists>q' t'. suffix t' t \<and> rmatch Q (Mst q' t' g) k = Some r"
proof -
  from lit_matchD[OF assms]
  have "rmatch Q (Mst (q + length w) (drop (length w) t) g) k = Some r" by simp
  moreover have "suffix (drop (length w) t) t" by (rule suffix_drop)
  ultimately show ?thesis by blast
qed

lemma lazy_any_suffix:
  assumes "rmatch (Seq (StarLazy DotAll) Q) (Mst q t g) k = Some r"
  shows "\<exists>q' t'. suffix t' t \<and> rmatch Q (Mst q' t' g) k = Some r"
proof -
  from lazy_any_matchD[OF assms] obtain n q' where
    "rmatch Q (Mst q' (drop n t) g) k = Some r" by blast
  moreover have "suffix (drop n t) t" by (rule suffix_drop)
  ultimately show ?thesis by blast
qed

text \<open>what a match of each shape of pattern leaves for the part after the colon\<close>

lemma label_tail:
  assumes nx: "\<not> labelled_earlier x"
    and line: "line = eif_label @ c0 # rest"
    and occ: "label_positions 0 line = [6]"
    and c0: "c0 \<noteq> 42"
    and suf: "suffix t (x @ line)"
    and w: "w = w0 @ liebiao"
    and m: "rmatch (Seq (Lit w) (Seq colon R)) (Mst q t g) k = Some r"
  shows "\<exists>q'. rmatch R (Mst q' rest g) k = Some r"
proof -
  from lit_colon_matchD[OF m] obtain c t' q' where
    t: "t = w @ c # t'" and c: "c = 0xFF1A \<or> c = 58" and m': "rmatch R (Mst q' t' g) k = Some r"
    by blast
  from t have t2: "t = w0 @ liebiao @ [] @ c # t'" by (simp add: w)
  from label_at_line[OF nx line occ c0 suf t2 _ c] have "t' = rest" by simp
  with m' show ?thesis by blast
qed

lemma star_label_tail:
  assumes nx: "\<not> labelled_earlier x"
    and line: "line = eif_label @ c0 # rest"
    and occ: "label_positions 0 line = [6]"
    and c0: "c0 \<noteq> 42"
    and suf: "suffix t (x @ line)"
    and w: "w = w0 @ liebiao"
    and m: "rmatch (Seq opt_star (Seq opt_star (Seq (Lit w)
               (Seq opt_star (Seq opt_star (Seq colon R)))))) (Mst q t g) k = Some r"
  shows "\<exists>q'. rmatch R (Mst q' rest g) k = Some r"
proof -
  from opt_star_suffix[OF m] obtain q1 t1 where
    s1: "suffix t1 t" and m1: "rmatch (Seq opt_star (Seq (Lit w)
               (Seq opt_star (Seq opt_star (Seq colon R))))) (Mst q1 t1 g) k = Some r"
    by blast
  from opt_star_suffix[OF m1] obtain q2 t2 where
    s2: "suffix t2 t1" and m2: "rmatch (Seq (Lit w)
               (Seq opt_star (Seq opt_star (Seq colon R)))) (Mst q2 t2 g) k = Some r"
    by blast
  have suf2: "suffix t2 (x @ line)" using s2 s1 suf by (meson suffix_order.trans)
  from lit_matchD[OF m2] have tk: "take (length w) t2 = w"
    and m3: "rmatch (Seq opt_star (Seq opt_star (Seq colon R)))
               (Mst (q2 + length w) (drop (length w) t2) g) k = Some r"
    by auto
  from stars_colon_matchD[OF m3] obtain stars c t' q' where
    d: "drop (length w) t2 = stars @ c # t'"
    and st: "stars = [] \<or> stars = [42] \<or> stars = [42, 42]"
    and c: "c = 0xFF1A \<or> c = 58" and m': "rmatch R (Mst q' t' g) k = Some r"
    by blast
  have "t2 = take (length w) t2 @ drop (length w) t2" by (rule append_take_drop_id[symmetric])
  then have "t2 = w0 @ liebiao @ stars @ c # t'" unfolding tk d by (simp add: w)
  from label_at_line[OF nx line occ c0 suf2 this st c] have "t' = rest" by simp
  with m' show ?thesis by blast
qed

lemma bold_label_no_match:
  assumes nx: "\<not> labelled_earlier x"
    and line: "line = eif_label @ c0 # rest"
    and occ: "label_positions 0 line = [6]"
    and c0: "c0 \<noteq> 42"
    and suf: "suffix t (x @ line)"
    and w: "w = w0 @ liebiao @ [42, 42]"
  shows "rmatch (Seq (Lit w) (Seq colon R)) (Mst q t g) k = None"
proof (cases "rmatch (Seq (Lit w) (Seq colon R)) (Mst q t g) k")
  case None
  then show ?thesis .
next
  case (Some r)
  from lit_colon_matchD[OF Some] obtain c t' q' where
    t: "t = w @ c # t'" and c: "c = 0xFF1A \<or> c = 58"
    by blast
  from t have t2: "t = w0 @ liebiao @ [42, 42] @ c # t'" by (simp add: w)
  from label_at_line[OF nx line occ c0 suf t2 _ c] have "[42, 42] = ([]::nat list)" by simp
  then show ?thesis by simp
qed

lemma perspective_no_match:
  assumes nx: "\<not> labelled_earlier x"
    and line: "line = eif_label @ c0 # rest"
    and occ: "label_positions 0 line = [6]"
    and suf: "suffix t (x @ line)"
  shows "rmatch (Seq (Lit perspective_label) (Seq colon R)) (Mst q t g) k = None"
proof (cases "rmatch (Seq (Lit perspective_label) (Seq colon R)) (Mst q t g) k")
  case None
  then show ?thesis .
next
  case (Some r)
  from lit_colon_matchD[OF Some] obtain c t' q' where
    t: "t = perspective_label @ c # t'" and c: "c = 0xFF1A \<or> c = 58"
    by blast
  from perspective_not_at_line[OF nx line occ suf t c] show ?thesis ..
qed

lemma loose_label_tail:
  assumes nx: "\<not> labelled_earlier x"
    and line: "line = eif_label @ c0 # rest"
    and occ: "label_positions 0 line = [6]"
    and c0: "c0 \<noteq> 42"
    and suf: "suffix t (x @ line)"
    and m: "rmatch (Seq (Lit zuizhong) (Seq (StarLazy DotAll) (Seq (Lit gongnengdian)
              (Seq (StarLazy DotAll) (Seq (Lit liebiao) (Seq colon R)))))) (Mst q t g) k = Some r"
  shows "\<exists>q'. rmatch R (Mst q' rest g) k = Some r"
proof -
  from lit_suffix[OF m] obtain q1 t1 where
    s1: "suffix t1 t" and m1: "rmatch (Seq (StarLazy DotAll) (Seq (Lit gongnengdian)
              (Seq (StarLazy DotAll) (Seq (Lit liebiao) (Seq colon R))))) (Mst q1 t1 g) k = Some r"
    by blast
  from lazy_any_suffix[OF m1] obtain q2 t2 where
    s2: "suffix t2 t1" and m2: "rmatch (Seq (Lit gongnengdian)
              (Seq (StarLazy DotAll) (Seq (Lit liebiao) (Seq colon R)))) (Mst q2 t2 g) k = Some r"
    by blast
  from lit_suffix[OF m2] obtain q3 t3 where
    s3: "suffix t3 t2" and m3: "rmatch (Seq (StarLazy DotAll) (Seq (Lit liebiao) (Seq colon R)))
              (Mst q3 t3 g) k = Some r"
    by blast
  from lazy_any_suffix[OF m3] obtain q4 t4 where
    s4: "suffix t4 t3" and m4: "rmatch (Seq (Lit liebiao) (Seq colon R)) (Mst q4 t4 g) k = Some r"
    by blast
  have suf4: "suffix t4 (x @ line)" using s4 s3 s2 s1 suf by (meson suffix_order.trans)
  have w: "liebiao = [] @ liebiao" by simp
  from label_tail[OF nx line occ c0 suf4 w m4] show ?thesis .
qed

text \<open>the same for a search\<close>

lemma search_soundE:
  assumes "re_search r s = Some (Match b e g)"
  shows "\<exists>q t s'. suffix t s \<and> rmatch r (Mst q t None) Some = Some (Mst e s' g)"
proof -
  from search_sound[OF assms[unfolded re_search_def]] obtain i s' where
    "rmatch r (Mst (0 + i) (drop i s) None) Some = Some (Mst e s' g)" by blast
  moreover have "suffix (drop i s) s" by (rule suffix_drop)
  ultimately show ?thesis by blast
qed

lemma search_none:
  assumes "\<And>q t. suffix t s \<Longrightarrow> rmatch r (Mst q t None) Some = None"
  shows "re_search r s = None"
proof (cases "re_search r s")
  case None
  then show ?thesis .
next
  case (Some m)
  obtain b e g where "m = Match b e g" by (cases m)
  with Some search_soundE[of r s b e g] assms show ?thesis by auto
qed

text \<open>the group of a search in a text that ends in the labelled line\<close>

lemma search_label_group:
  assumes nx: "\<not> labelled_earlier x"
    and line: "line = eif_label @ c0 # rest"
    and occ: "label_positions 0 line = [6]"
    and c0: "c0 \<noteq> 42"
    and w: "w = w0 @ liebiao"
    and tl: "\<And>q e s' g. rmatch R (Mst q rest None) Some = Some (Mst e s' g) \<Longrightarrow> g \<in> Some ` G"
    and s: "re_search (Seq (Lit w) (Seq colon R)) (x @ line) = Some m"
  shows "group1 m \<in> G"
proof -
  obtain b e g where m: "m = Match b e g" by (cases m)
  from search_soundE[OF s[unfolded m]] obtain q t s' where
    suf: "suffix t (x @ line)"
    and r: "rmatch (Seq (Lit w) (Seq colon R)) (Mst q t None) Some = Some (Mst e s' g)"
    by blast
  from label_tail[OF nx line occ c0 suf w r] obtain q' where
    "rmatch R (Mst q' rest None) Some = Some (Mst e s' g)" by blast
  from tl[OF this] show ?thesis by (auto simp: m)
qed

lemma search_star_label_group:
  assumes nx: "\<not> labelled_earlier x"
    and line: "line = eif_label @ c0 # rest"
    and occ: "label_positions 0 line = [6]"
    and c0: "c0 \<noteq> 42"
    and w: "w = w0 @ liebiao"
    and tl: "\<And>q e s' g. rmatch R (Mst q rest None) Some = Some (Mst e s' g) \<Longrightarrow> g \<in> Some ` G"
    and s: "re_search (Seq opt_star (Seq opt_star (Seq (Lit w)
               (Seq opt_star (Seq opt_star (Seq colon R)))))) (x @ line) = Some m"
  shows "group1 m \<in> G"
proof -
  obtain b e g where m: "m = Match b e g" by (cases m)
  from search_soundE[OF s[unfolded m]] obtain q t s' where
    suf: "suffix t (x @ line)"
    and r: "rmatch (Seq opt_star (Seq opt_star (Seq (Lit w)
               (Seq opt_star (Seq opt_star (Seq colon R)))))) (Mst q t None) Some = Some (Mst e s' g)"
    by blast
  from star_label_tail[OF nx line occ c0 suf w r] obtain q' where
    "rmatch R (Mst q' rest None) Some = Some (Mst e s' g)" by blast
  from tl[OF this] show ?thesis by (auto simp: m)
qed

lemma search_loose_label_group:
  assumes nx: "\<not> labelled_earlier x"
    and line: "line = eif_label @ c0 # rest"
    and occ: "label_positions 0 line = [6]"
    and c0: "c0 \<noteq> 42"
    and tl: "\<And>q e s' g. rmatch R (Mst q rest None) Some = Some (Mst e s' g) \<Longrightarrow> g \<in> Some ` G"
    and s: "re_search (Seq (Lit zuizhong) (Seq (StarLazy DotAll) (Seq (Lit gongnengdian)
              (Seq (StarLazy DotAll) (Seq (Lit liebiao) (Seq colon R)))))) (x @ line) = Some m"
  shows "group1 m \<in> G"
proof -
  obtain b e g where m: "m = Match b e g" by (cases m)
  from search_soundE[OF s[unfolded m]] obtain q t s' where
    suf: "suffix t (x @ line)"
    and r: "rmatch (Seq (Lit zuizhong) (Seq (StarLazy DotAll) (Seq (Lit gongnengdian)
              (Seq (StarLazy DotAll) (Seq (Lit liebiao) (Seq colon R)))))) (Mst q t None) Some
            = Some (Mst e s' g)"
    by blast
  from loose_label_tail[OF nx line occ c0 suf r] obtain q' where
    "rmatch R (Mst q' rest None) Some = Some (Mst e s' g)" by blast
  from tl[OF this] show ?thesis by (auto simp: m)
qed

lemma search_label_none:
  assumes nx: "\<not> labelled_earlier x"
    and line: "line = eif_label @ c0 # rest"
    and occ: "label_positions 0 line = [6]"
    and c0: "c0 \<noteq> 42"
    and w: "w = w0 @ liebiao"
    and tl: "\<And>q. rmatch R (Mst q rest None) Some = None"
  shows "re_search (Seq (Lit w) (Seq colon R)) (x @ line) = None"
proof (rule search_none)
  fix q t assume suf: "suffix t (x @ line)"
  show "rmatch (Seq (Lit w) (Seq colon R)) (Mst q t None) Some = None"
  proof (cases "rmatch (Seq (Lit w) (Seq colon R)) (Mst q t None) Some")
    case None
    then show ?thesis .
  next
    case (Some r)
    from label_tail[OF nx line occ c0 suf w Some] tl show ?thesis by auto
  qed
qed

lemma search_bold_label_none:
  assumes nx: "\<not> labelled_earlier x"
    and line: "line = eif_label @ c0 # rest"
    and occ: "label_positions 0 line = [6]"
    and c0: "c0 \<noteq> 42"
    and w: "w = w0 @ liebiao @ [42, 42]"
  shows "re_search (Seq (Lit w) (Seq colon R)) (x @ line) = None"
  by (rule search_none) (rule bold_label_no_match[OF nx line occ c0 _ w])

lemma search_perspective_none:
  assumes nx: "\<not> labelled_earlier x"
    and line: "line = eif_label @ c0 # rest"
    and occ: "label_positions 0 line = [6]"
  shows "re_search (Seq (Lit perspective_label) (Seq colon R)) (x @ line) = None"
  by (rule search_none) (rule perspective_no_match[OF nx line occ])

lemma label_line_match:
  "rmatch (Seq (Lit eif_label) (Seq colon R)) (Mst q (eif_label @ 0xFF1A # rest) g) k
   = rmatch R (Mst (Suc (q + length eif_label)) rest g) k"
  by (simp add: colon_def cls_has_def)

lemma search_label_line:
  assumes "\<And>q. rmatch R (Mst q rest None) Some \<noteq> None"
  shows "re_search (Seq (Lit eif_label) (Seq colon R)) (x @ eif_label @ 0xFF1A # rest) \<noteq> None"
proof -
  have "rmatch (Seq (Lit eif_label) (Seq colon R))
          (Mst (0 + length x) (drop (length x) (x @ eif_label @ 0xFF1A # rest)) None) Some \<noteq> None"
  proof -
    have "drop (length x) (x @ eif_label @ 0xFF1A # rest) = eif_label @ 0xFF1A # rest" by simp
    then show ?thesis using assms by (simp only: label_line_match) simp
  qed
  then show ?thesis unfolding re_search_def
    by (intro search_complete[of "length x"]) simp_all
qed

text \<open>the loops over the patterns\<close>

lemma final_conclusion_step:
  assumes hit: "\<And>m. re_search p T = Some m \<Longrightarrow> group1 m \<in> G \<Longrightarrow> final_conclusion (p # ps) T = Some res"
    and ok: "\<And>m. re_search p T = Some m \<Longrightarrow> group1 m \<in> G"
    and nxt: "re_search p T = None \<Longrightarrow> final_conclusion ps T = Some res"
  shows "final_conclusion (p # ps) T = Some res"
proof (cases "re_search p T")
  case None
  with nxt show ?thesis by simp
next
  case (Some m)
  from hit[OF Some ok[OF Some]] show ?thesis .
qed

lemma labelled_step:
  assumes hit: "\<And>m. re_search p T = Some m \<Longrightarrow> group1 m \<in> G \<Longrightarrow> labelled (p # ps) T = Some res"
    and ok: "\<And>m. re_search p T = Some m \<Longrightarrow> group1 m \<in> G"
    and nxt: "re_search p T = None \<Longrightarrow> labelled ps T = Some res"
  shows "labelled (p # ps) T = Some res"
proof (cases "re_search p T")
  case None
  with nxt show ?thesis by simp
next
  case (Some m)
  from hit[OF Some ok[OF Some]] show ?thesis .
qed

text \<open>the part of each pattern after the colon, on the two lines of the claim\<close>

lemma job_tails:
  "rmatch (Seq ws bracketed) (Mst q (u ''[Job Info, Employee Info]'') None) Some = Some (Mst e s' g)
     \<Longrightarrow> g = Some (u ''Job Info, Employee Info'')"
  "rmatch (Seq ws to_eol) (Mst q (u ''[Job Info, Employee Info]'') None) Some = Some (Mst e s' g)
     \<Longrightarrow> g = Some (u ''[Job Info, Employee Info]'')"
  "rmatch (Seq ws to_eol_or_paren) (Mst q (u ''[Job Info, Employee Info]'') None) Some = Some (Mst e s' g)
     \<Longrightarrow> g = Some (u ''[Job Info, Employee Info]'')"
  "rmatch (Seq ws to_eol) (Mst q (u ''[Job Info, Employee Info]'') None) Some \<noteq> None"
  "rmatch (Seq ws to_eol_or_paren) (Mst q (u ''[Job Info, Employee Info]'') None) Some \<noteq> None"
  "rmatch (Seq ws (Seq opt_star (Seq opt_star (Seq ws (Seq (Lit [10]) (Grp (Plus numbered_line)))))))
     (Mst q (u ''[Job Info, Employee Info]'') None) Some = None"
  by (simp_all add: u_def py_isspace_def cls_has_def Plus_def ws_def bracketed_def to_eol_def
      to_eol_or_paren_def opt_star_def)

lemma none_tails:
  "rmatch (Seq ws bracketed) (Mst q (u ''none'') None) Some = None"
  "rmatch (Seq ws to_eol) (Mst q (u ''none'') None) Some = Some (Mst e s' g)
     \<Longrightarrow> g = Some (u ''none'')"
  "rmatch (Seq ws to_eol_or_paren) (Mst q (u ''none'') None) Some = Some (Mst e s' g)
     \<Longrightarrow> g = Some (u ''none'')"
  "rmatch (Seq ws to_eol) (Mst q (u ''none'') None) Some \<noteq> None"
  "rmatch (Seq ws to_eol_or_paren) (Mst q (u ''none'') None) Some \<noteq> None"
  "rmatch (Seq ws (Seq opt_star (Seq opt_star (Seq ws (Seq (Lit [10]) (Grp (Plus numbered_line)))))))
     (Mst q (u ''none'') None) Some = None"
  by (simp_all add: u_def py_isspace_def cls_has_def Plus_def ws_def bracketed_def to_eol_def
      to_eol_or_paren_def opt_star_def)


text \<open>what the two loops make of the group\<close>

lemma job_groups:
  assumes "re_search p T = Some m"
    and "group1 m \<in> {u ''Job Info, Employee Info'', u ''[Job Info, Employee Info]''}"
  shows "final_conclusion (p # ps) T = Some [u ''Job Info'', u ''Employee Info'']"
    and "labelled (p # ps) T = Some [u ''Job Info'', u ''Employee Info'']"
proof -
  from assms(2) consider "group1 m = u ''Job Info, Employee Info''"
    | "group1 m = u ''[Job Info, Employee Info]''" by blast
  then have "final_conclusion (p # ps) T = Some [u ''Job Info'', u ''Employee Info'']
      \<and> labelled (p # ps) T = Some [u ''Job Info'', u ''Employee Info'']"
  proof cases
    case 1
    have "py_strip (group1 m) = u ''Job Info, Employee Info''"
      unfolding 1 by (simp add: u_def py_strip_def py_isspace_def)
    then show ?thesis using assms(1)
      by (simp add: u_def py_strip_def py_isspace_def py_isdigit_def py_split_def cls_has_def
          Plus_def re_sub_del_def none_words_def separators_def re_split_def clean_eif_name_def
          ordinal_prefix_def bullet_prefix_def square_bracket_def re_search_def)
  next
    case 2
    have "py_strip (group1 m) = u ''[Job Info, Employee Info]''"
      unfolding 2 by (simp add: u_def py_strip_def py_isspace_def)
    then show ?thesis using assms(1)
      by (simp add: u_def py_strip_def py_isspace_def py_isdigit_def py_split_def cls_has_def
          Plus_def re_sub_del_def none_words_def separators_def re_split_def clean_eif_name_def
          ordinal_prefix_def bullet_prefix_def square_bracket_def re_search_def)
  qed
  then show "final_conclusion (p # ps) T = Some [u ''Job Info'', u ''Employee Info'']"
    and "labelled (p # ps) T = Some [u ''Job Info'', u ''Employee Info'']" by simp_all
qed

lemma none_groups:
  assumes "re_search p T = Some m"
    and "group1 m \<in> {u ''none''}"
  shows "final_conclusion (p # ps) T = Some []"
    and "labelled (p # ps) T = Some []"
proof -
  have "py_strip (group1 m) = u ''none''"
    using assms(2) by (simp add: u_def py_strip_def py_isspace_def)
  then show "final_conclusion (p # ps) T = Some []" and "labelled (p # ps) T = Some []"
    using assms(1) by (simp_all add: u_def none_words_def)
qed


text \<open>the three stages on a text that ends in a labelled line, with no list label before it\<close>

lemma final_line_stages:
  fixes rest :: ustr and res :: "ustr list" and G :: "ustr set"
  assumes nx: "\<not> labelled_earlier x"
    and line: "line = eif_label @ 0xFF1A # rest"
    and occ: "label_positions 0 line = [6]"
    and tb: "\<And>q e s' g. rmatch (Seq ws bracketed) (Mst q rest None) Some = Some (Mst e s' g)
               \<Longrightarrow> g \<in> Some ` G"
    and te: "\<And>q e s' g. rmatch (Seq ws to_eol) (Mst q rest None) Some = Some (Mst e s' g)
               \<Longrightarrow> g \<in> Some ` G"
    and tp: "\<And>q e s' g. rmatch (Seq ws to_eol_or_paren) (Mst q rest None) Some = Some (Mst e s' g)
               \<Longrightarrow> g \<in> Some ` G"
    and he: "\<And>q. rmatch (Seq ws to_eol) (Mst q rest None) Some \<noteq> None"
    and hp: "\<And>q. rmatch (Seq ws to_eol_or_paren) (Mst q rest None) Some \<noteq> None"
    and tn: "\<And>q. rmatch (Seq ws (Seq opt_star (Seq opt_star (Seq ws (Seq (Lit [10])
               (Grp (Plus numbered_line))))))) (Mst q rest None) Some = None"
    and pf: "\<And>p ps m. re_search p (x @ line) = Some m \<Longrightarrow> group1 m \<in> G
               \<Longrightarrow> final_conclusion (p # ps) (x @ line) = Some res"
    and pl: "\<And>p ps m. re_search p (x @ line) = Some m \<Longrightarrow> group1 m \<in> G
               \<Longrightarrow> labelled (p # ps) (x @ line) = Some res"
  shows "final_conclusion final_patterns (x @ line) = Some res"
    and "numbered_after_title (x @ line) = None"
    and "labelled patterns (x @ line) = Some res"
proof -
  have c0: "(0xFF1A::nat) \<noteq> 42" by simp
  note base = nx line occ c0
  have e: "eif_label = (u ''EIF'' @ gongnengdian) @ liebiao"
    by (simp add: eif_label_def)
  have z: "zuizhong @ eif_label = (zuizhong @ u ''EIF'' @ gongnengdian) @ liebiao"
    by (simp add: eif_label_def)
  have i: "improved_label = ([0x6539, 0x8FDB, 0x540E, 0x7684] @ u ''EIF'' @ gongnengdian) @ liebiao"
    by (simp add: improved_label_def eif_label_def)
  have b: "u ''**'' @ zuizhong @ eif_label @ u ''**''
           = (u ''**'' @ zuizhong @ u ''EIF'' @ gongnengdian) @ liebiao @ [42, 42]"
    by (simp add: eif_label_def u_def)
  have last_e: "re_search (Seq (Lit eif_label) (Seq colon (Seq ws to_eol))) (x @ line) \<noteq> None"
    unfolding line by (rule search_label_line) (rule he)
  have last_p: "re_search (Seq (Lit eif_label) (Seq colon (Seq ws to_eol_or_paren))) (x @ line) \<noteq> None"
    unfolding line by (rule search_label_line) (rule hp)
  let ?T = "x @ line"
  have fstep: "final_conclusion (p # ps) ?T = Some res"
    if "\<And>m. re_search p ?T = Some m \<Longrightarrow> group1 m \<in> G"
      and "re_search p ?T = None \<Longrightarrow> final_conclusion ps ?T = Some res" for p ps
  proof (rule final_conclusion_step[where G = G])
    fix m assume "re_search p ?T = Some m" "group1 m \<in> G"
    then show "final_conclusion (p # ps) ?T = Some res" by (rule pf)
  qed (fact that)+
  have lstep: "labelled (p # ps) ?T = Some res"
    if "\<And>m. re_search p ?T = Some m \<Longrightarrow> group1 m \<in> G"
      and "re_search p ?T = None \<Longrightarrow> labelled ps ?T = Some res" for p ps
  proof (rule labelled_step[where G = G])
    fix m assume "re_search p ?T = Some m" "group1 m \<in> G"
    then show "labelled (p # ps) ?T = Some res" by (rule pl)
  qed (fact that)+
  have g_zb: "group1 m \<in> G"
    if "re_search (Seq (Lit (zuizhong @ eif_label)) (Seq colon (Seq ws bracketed))) ?T = Some m" for m
    using base z tb that by (rule search_label_group)
  have g_ze: "group1 m \<in> G"
    if "re_search (Seq (Lit (zuizhong @ eif_label)) (Seq colon (Seq ws to_eol))) ?T = Some m" for m
    using base z te that by (rule search_label_group)
  have g_zp: "group1 m \<in> G"
    if "re_search (Seq (Lit (zuizhong @ eif_label)) (Seq colon (Seq ws to_eol_or_paren))) ?T = Some m" for m
    using base z tp that by (rule search_label_group)
  have g_ib: "group1 m \<in> G"
    if "re_search (Seq (Lit improved_label) (Seq colon (Seq ws bracketed))) ?T = Some m" for m
    using base i tb that by (rule search_label_group)
  have g_ip: "group1 m \<in> G"
    if "re_search (Seq (Lit improved_label) (Seq colon (Seq ws to_eol_or_paren))) ?T = Some m" for m
    using base i tp that by (rule search_label_group)
  have g_eb: "group1 m \<in> G"
    if "re_search (Seq (Lit eif_label) (Seq colon (Seq ws bracketed))) ?T = Some m" for m
    using base e tb that by (rule search_label_group)
  have g_ee: "group1 m \<in> G"
    if "re_search (Seq (Lit eif_label) (Seq colon (Seq ws to_eol))) ?T = Some m" for m
    using base e te that by (rule search_label_group)
  have g_ep: "group1 m \<in> G"
    if "re_search (Seq (Lit eif_label) (Seq colon (Seq ws to_eol_or_paren))) ?T = Some m" for m
    using base e tp that by (rule search_label_group)
  have g_sb: "group1 m \<in> G"
    if "re_search (Seq opt_star (Seq opt_star (Seq (Lit eif_label)
          (Seq opt_star (Seq opt_star (Seq colon (Seq ws bracketed))))))) ?T = Some m" for m
    using base e tb that by (rule search_star_label_group)
  have g_lb: "group1 m \<in> G"
    if "re_search (Seq (Lit zuizhong) (Seq (StarLazy DotAll) (Seq (Lit gongnengdian)
          (Seq (StarLazy DotAll) (Seq (Lit liebiao) (Seq colon (Seq ws bracketed))))))) ?T = Some m" for m
    using base tb that by (rule search_loose_label_group)
  have n_bb: "re_search (Seq (Lit (u ''**'' @ zuizhong @ eif_label @ u ''**''))
          (Seq colon (Seq ws bracketed))) ?T = None"
    using base b by (rule search_bold_label_none)
  have n_be: "re_search (Seq (Lit (u ''**'' @ zuizhong @ eif_label @ u ''**''))
          (Seq colon (Seq ws to_eol))) ?T = None"
    using base b by (rule search_bold_label_none)
  have n_pb: "re_search (Seq (Lit perspective_label) (Seq colon (Seq ws bracketed))) ?T = None"
    using nx line occ by (rule search_perspective_none)
  have n_pp: "re_search (Seq (Lit perspective_label) (Seq colon (Seq ws to_eol_or_paren))) ?T = None"
    using nx line occ by (rule search_perspective_none)
  have g_bb: "group1 m \<in> G"
    if "re_search (Seq (Lit (u ''**'' @ zuizhong @ eif_label @ u ''**''))
          (Seq colon (Seq ws bracketed))) ?T = Some m" for m
    using n_bb that by simp
  have g_be: "group1 m \<in> G"
    if "re_search (Seq (Lit (u ''**'' @ zuizhong @ eif_label @ u ''**''))
          (Seq colon (Seq ws to_eol))) ?T = Some m" for m
    using n_be that by simp
  have g_pb: "group1 m \<in> G"
    if "re_search (Seq (Lit perspective_label) (Seq colon (Seq ws bracketed))) ?T = Some m" for m
    using n_pb that by simp
  have g_pp: "group1 m \<in> G"
    if "re_search (Seq (Lit perspective_label) (Seq colon (Seq ws to_eol_or_paren))) ?T = Some m" for m
    using n_pp that by simp
  have f6: "final_conclusion [Seq (Lit eif_label) (Seq colon (Seq ws to_eol))] ?T = Some res"
  proof (rule fstep)
    fix m assume "re_search (Seq (Lit eif_label) (Seq colon (Seq ws to_eol))) ?T = Some m"
    then show "group1 m \<in> G" by (rule g_ee)
  next
    assume "re_search (Seq (Lit eif_label) (Seq colon (Seq ws to_eol))) ?T = None"
    with last_e show "final_conclusion [] ?T = Some res" by (rule notE)
  qed
  have f5: "final_conclusion [Seq opt_star (Seq opt_star (Seq (Lit eif_label)
          (Seq opt_star (Seq opt_star (Seq colon (Seq ws bracketed)))))),
        Seq (Lit eif_label) (Seq colon (Seq ws to_eol))] ?T = Some res"
    by (rule fstep[OF g_sb f6])
  have f4: "final_conclusion [Seq (Lit zuizhong) (Seq (StarLazy DotAll) (Seq (Lit gongnengdian)
          (Seq (StarLazy DotAll) (Seq (Lit liebiao) (Seq colon (Seq ws bracketed)))))),
        Seq opt_star (Seq opt_star (Seq (Lit eif_label)
          (Seq opt_star (Seq opt_star (Seq colon (Seq ws bracketed)))))),
        Seq (Lit eif_label) (Seq colon (Seq ws to_eol))] ?T = Some res"
    by (rule fstep[OF g_lb f5])
  have f3: "final_conclusion [Seq (Lit (zuizhong @ eif_label)) (Seq colon (Seq ws to_eol)),
        Seq (Lit zuizhong) (Seq (StarLazy DotAll) (Seq (Lit gongnengdian)
          (Seq (StarLazy DotAll) (Seq (Lit liebiao) (Seq colon (Seq ws bracketed)))))),
        Seq opt_star (Seq opt_star (Seq (Lit eif_label)
          (Seq opt_star (Seq opt_star (Seq colon (Seq ws bracketed)))))),
        Seq (Lit eif_label) (Seq colon (Seq ws to_eol))] ?T = Some res"
    by (rule fstep[OF g_ze f4])
  have f2: "final_conclusion [Seq (Lit (zuizhong @ eif_label)) (Seq colon (Seq ws bracketed)),
        Seq (Lit (zuizhong @ eif_label)) (Seq colon (Seq ws to_eol)),
        Seq (Lit zuizhong) (Seq (StarLazy DotAll) (Seq (Lit gongnengdian)
          (Seq (StarLazy DotAll) (Seq (Lit liebiao) (Seq colon (Seq ws bracketed)))))),
        Seq opt_star (Seq opt_star (Seq (Lit eif_label)
          (Seq opt_star (Seq opt_star (Seq colon (Seq ws bracketed)))))),
        Seq (Lit eif_label) (Seq colon (Seq ws to_eol))] ?T = Some res"
    by (rule fstep[OF g_zb f3])
  show "final_conclusion final_patterns ?T = Some res"
    unfolding final_patterns_def Cat.simps
    by (rule fstep[OF g_bb fstep[OF g_be f2]])
  have "re_search numbered_section ?T = None"
    unfolding numbered_section_def Cat.simps
    using base e tn by (rule search_label_none)
  then show "numbered_after_title ?T = None"
    by (simp add: numbered_after_title_def)
  have l8: "labelled [Seq (Lit eif_label) (Seq colon (Seq ws to_eol_or_paren)),
        Seq (Lit (gongnengdian @ ruxia)) (Seq colon (Seq ws to_eol)),
        Seq (Lit gongnengdian) (Seq colon (Seq ws to_eol_or_paren))] ?T = Some res"
  proof (rule lstep)
    fix m assume "re_search (Seq (Lit eif_label) (Seq colon (Seq ws to_eol_or_paren))) ?T = Some m"
    then show "group1 m \<in> G" by (rule g_ep)
  next
    assume "re_search (Seq (Lit eif_label) (Seq colon (Seq ws to_eol_or_paren))) ?T = None"
    with last_p show "labelled [Seq (Lit (gongnengdian @ ruxia)) (Seq colon (Seq ws to_eol)),
        Seq (Lit gongnengdian) (Seq colon (Seq ws to_eol_or_paren))] ?T = Some res" by (rule notE)
  qed
  have l7: "labelled [Seq (Lit eif_label) (Seq colon (Seq ws bracketed)),
        Seq (Lit eif_label) (Seq colon (Seq ws to_eol_or_paren)),
        Seq (Lit (gongnengdian @ ruxia)) (Seq colon (Seq ws to_eol)),
        Seq (Lit gongnengdian) (Seq colon (Seq ws to_eol_or_paren))] ?T = Some res"
    by (rule lstep[OF g_eb l8])
  have l6: "labelled [Seq opt_star (Seq opt_star (Seq (Lit eif_label)
          (Seq opt_star (Seq opt_star (Seq colon (Seq ws bracketed)))))),
        Seq (Lit eif_label) (Seq colon (Seq ws bracketed)),
        Seq (Lit eif_label) (Seq colon (Seq ws to_eol_or_paren)),
        Seq (Lit (gongnengdian @ ruxia)) (Seq colon (Seq ws to_eol)),
        Seq (Lit gongnengdian) (Seq colon (Seq ws to_eol_or_paren))] ?T = Some res"
    by (rule lstep[OF g_sb l7])
  show "labelled patterns ?T = Some res"
    unfolding patterns_def Cat.simps
    by (rule lstep[OF g_zb lstep[OF g_zp lstep[OF g_ib lstep[OF g_ip lstep[OF g_pb lstep[OF g_pp l6]]]]]])
qed

lemma job_line_stages:
  assumes "\<not> labelled_earlier x"
  shows "final_conclusion final_patterns (x @ job_list_line) = Some [u ''Job Info'', u ''Employee Info'']"
    and "numbered_after_title (x @ job_list_line) = None"
    and "labelled patterns (x @ job_list_line) = Some [u ''Job Info'', u ''Employee Info'']"
proof -
  let ?G = "{u ''Job Info, Employee Info'', u ''[Job Info, Employee Info]''}"
  have line: "job_list_line = eif_label @ 0xFF1A # u ''[Job Info, Employee Info]''"
    by (simp add: job_list_line_def)
  have tb: "g \<in> Some ` ?G"
    if "rmatch (Seq ws bracketed) (Mst q (u ''[Job Info, Employee Info]'') None) Some = Some (Mst e s' g)"
    for q e s' g using job_tails(1)[OF that] by simp
  have te: "g \<in> Some ` ?G"
    if "rmatch (Seq ws to_eol) (Mst q (u ''[Job Info, Employee Info]'') None) Some = Some (Mst e s' g)"
    for q e s' g using job_tails(2)[OF that] by simp
  have tp: "g \<in> Some ` ?G"
    if "rmatch (Seq ws to_eol_or_paren) (Mst q (u ''[Job Info, Employee Info]'') None) Some = Some (Mst e s' g)"
    for q e s' g using job_tails(3)[OF that] by simp
  note st = final_line_stages[where G = ?G, OF assms line line_positions(1) tb te tp
      job_tails(4) job_tails(5) job_tails(6) job_groups(1) job_groups(2)]
  show "final_conclusion final_patterns (x @ job_list_line) = Some [u ''Job Info'', u ''Employee Info'']"
    by (rule st(1))
  show "numbered_after_title (x @ job_list_line) = None"
    by (rule st(2))
  show "labelled patterns (x @ job_list_line) = Some [u ''Job Info'', u ''Employee Info'']"
    by (rule st(3))
qed

lemma none_line_stages:
  assumes "\<not> labelled_earlier x"
  shows "final_conclusion final_patterns (x @ none_line) = Some []"
    and "numbered_after_title (x @ none_line) = None"
    and "labelled patterns (x @ none_line) = Some []"
proof -
  let ?G = "{u ''none''}"
  have line: "none_line = eif_label @ 0xFF1A # u ''none''"
    by (simp add: none_line_def)
  have tb: "g \<in> Some ` ?G"
    if "rmatch (Seq ws bracketed) (Mst q (u ''none'') None) Some = Some (Mst e s' g)"
    for q e s' g using that unfolding none_tails(1) by simp
  have te: "g \<in> Some ` ?G"
    if "rmatch (Seq ws to_eol) (Mst q (u ''none'') None) Some = Some (Mst e s' g)"
    for q e s' g using none_tails(2)[OF that] by simp
  have tp: "g \<in> Some ` ?G"
    if "rmatch (Seq ws to_eol_or_paren) (Mst q (u ''none'') None) Some = Some (Mst e s' g)"
    for q e s' g using none_tails(3)[OF that] by simp
  note st = final_line_stages[where G = ?G, OF assms line line_positions(2) tb te tp
      none_tails(4) none_tails(5) none_tails(6) none_groups(1) none_groups(2)]
  show "final_conclusion final_patterns (x @ none_line) = Some []"
    by (rule st(1))
  show "numbered_after_title (x @ none_line) = None"
    by (rule st(2))
  show "labelled patterns (x @ none_line) = Some []"
    by (rule st(3))
qed

text \<open>A text of more than 500 characters with an earlier labelled list.\<close>

lemma long_text_first_list:
  "extract_answer (eif_label @ [0xFF1A] @ u ''[X]'' @ [10] @ analysis_text @ [10] @ job_list_line)
   = [u ''X'']"
proof -
  let ?pre = "eif_label @ [0xFF1A] @ u ''[X]'' @ [10] @ analysis_text @ [10]"
  let ?T = "?pre @ job_list_line"
  have len: "length analysis_text = 524" by (simp add: analysis_text_def u_def)
  have free: "42 \<notin> set analysis_text" "0x6700 \<notin> set analysis_text"
    by (simp_all add: analysis_text_def u_def)
  have strip: "py_strip ?T = ?T"
    unfolding job_list_line_strip by (simp add: eif_label_def u_def py_isspace_def)
  have ft: "42 \<notin> set ?T" "0x6700 \<notin> set ?T"
    using free by (simp_all add: job_list_line_def eif_label_def gongnengdian_def liebiao_def u_def)
  have f0: "re_search (Cat [Lit (u ''**'' @ zuizhong @ eif_label @ u ''**''), colon, ws, bracketed]) ?T = None"
    unfolding re_search_def Cat.simps
    using ft by (intro lit_search_none) (simp_all add: u_def)
  have f1: "re_search (Cat [Lit (u ''**'' @ zuizhong @ eif_label @ u ''**''), colon, ws, to_eol]) ?T = None"
    unfolding re_search_def Cat.simps
    using ft by (intro lit_search_none) (simp_all add: u_def)
  have f2: "re_search (Cat [Lit (zuizhong @ eif_label), colon, ws, bracketed]) ?T = None"
    unfolding re_search_def Cat.simps
    using ft by (intro lit_search_none) (simp_all add: zuizhong_def)
  have f3: "re_search (Cat [Lit (zuizhong @ eif_label), colon, ws, to_eol]) ?T = None"
    unfolding re_search_def Cat.simps
    using ft by (intro lit_search_none) (simp_all add: zuizhong_def)
  have f4: "re_search (Cat [Lit zuizhong, StarLazy DotAll, Lit gongnengdian, StarLazy DotAll,
              Lit liebiao, colon, ws, bracketed]) ?T = None"
    unfolding re_search_def Cat.simps
    using ft by (intro lit_search_none) (simp_all add: zuizhong_def)
  have f5: "re_search (Cat [opt_star, opt_star, Lit eif_label, opt_star, opt_star, colon, ws, bracketed]) ?T
           = Some (Match 0 12 (Some (u ''X'')))"
    by (simp add: re_search_def eif_label_def gongnengdian_def liebiao_def u_def opt_star_def colon_def
        ws_def bracketed_def Plus_def cls_has_def py_isspace_def)
  have "final_conclusion final_patterns ?T = Some [u ''X'']"
    unfolding final_patterns_def final_conclusion.simps f0 f1 f2 f3 f4 f5
    by (simp add: u_def py_strip_def py_isspace_def py_isdigit_def py_split_def cls_has_def
          Plus_def re_sub_del_def none_words_def separators_def re_split_def clean_eif_name_def
          ordinal_prefix_def bullet_prefix_def square_bracket_def)
  then have "long_text_stage ?T = Some [u ''X'']" by (simp add: long_text_stage_def)
  moreover have "500 < length ?T" by (simp add: len)
  moreover have "eif_label @ [0xFF1A] @ u ''[X]'' @ [10] @ analysis_text @ [10] @ job_list_line = ?T"
    by simp
  ultimately show ?thesis
    unfolding extract_answer_def Let_def
    by (simp only: strip) (simp add: eif_label_def u_def)
qed

section \<open>The number in the reply of the language model\<close>

lemma digit_class: "cls_has [Digit] c = py_isdigit c"
  by (simp add: cls_has_def)

lemma case_option_id: "x \<noteq> None \<Longrightarrow> (case x of Some r \<Rightarrow> Some r | None \<Rightarrow> y) = x"
  by (cases x) auto

lemma star_digits:
  assumes "\<And>st. k st \<noteq> None"
  shows "rmatch (Star (In [Digit])) (Mst p s g) k
         = k (Mst (p + length (takeWhile py_isdigit s)) (dropWhile py_isdigit s) g)"
proof (induction s arbitrary: p)
  case Nil
  then show ?case by simp
next
  case (Cons c s)
  show ?case
  proof (cases "py_isdigit c")
    case True
    have "rmatch (Star (In [Digit])) (Mst (Suc p) s g) k \<noteq> None"
      unfolding Cons.IH using assms by simp
    then show ?thesis using True Cons.IH[of "Suc p"]
      by (simp add: digit_class case_option_id)
  next
    case False
    then show ?thesis by (simp add: digit_class)
  qed
qed

lemma score_number_at_digit:
  assumes "py_isdigit c"
  shows "rmatch score_number (Mst p (c # s) None) Some
         = Some (Mst (p + length (number_prefix (c # s)))
                     (drop (length (number_prefix (c # s))) (c # s))
                     (Some (number_prefix (c # s))))"
proof -
  define KG where "KG = (\<lambda>st'. case st' of Mst p' s' g' \<Rightarrow> Some (Mst p' s' (Some (take (p' - p) (c # s)))))"
  have KG: "KG st \<noteq> None" for st by (cases st) (simp add: KG_def)
  define K3 where "K3 = (\<lambda>st. rmatch (Star (In [Digit])) st KG)"
  have K3e: "K3 (Mst q t g) = KG (Mst (q + length (takeWhile py_isdigit t)) (dropWhile py_isdigit t) g)" for q t g
    unfolding K3_def by (rule star_digits) (rule KG)
  have K3: "K3 st \<noteq> None" for st by (cases st) (simp add: K3e KG)
  define K2 where "K2 = (\<lambda>st'. rmatch (Seq (Opt (Lit [46])) (Star (In [Digit]))) st' KG)"
  have K2e: "K2 (Mst q t g) =
      (case t of [] \<Rightarrow> K3 (Mst q t g)
       | d # t' \<Rightarrow> if d = 46 then K3 (Mst (Suc q) t' g) else K3 (Mst q t g))" for q t g
    unfolding K2_def using K3[of "Mst (Suc q) (tl t) g"]
    by (cases t) (auto simp: K3_def[symmetric] case_option_id)
  have K2: "K2 st \<noteq> None" for st using K3 by (cases st) (auto simp: K2e split: list.splits)
  let ?tw = "takeWhile py_isdigit s" and ?dw = "dropWhile py_isdigit s"
  have m: "rmatch score_number (Mst p (c # s) None) Some
           = K2 (Mst (Suc p + length ?tw) ?dw None)"
    unfolding score_number_def Cat.simps Plus_def
    using assms star_digits[of K2 "Suc p" s None, OF K2]
    by (simp add: digit_class KG_def[symmetric] K2_def[symmetric])
  have s: "s = ?tw @ ?dw" by simp
  show ?thesis
  proof (cases ?dw)
    case Nil
    have tw: "takeWhile py_isdigit s = s" using Nil s by (metis append_Nil2)
    have np: "number_prefix (c # s) = c # s"
      using assms by (simp add: number_prefix_def Let_def Nil tw)
    show ?thesis unfolding m np Nil tw
      by (simp add: K2e K3e KG_def)
  next
    case (Cons d t)
    show ?thesis
    proof (cases "d = 46")
      case True
      have np: "number_prefix (c # s) = c # ?tw @ [46] @ takeWhile py_isdigit t"
        using assms Cons True by (simp add: number_prefix_def Let_def)
      have s': "c # s = (c # ?tw @ [46] @ takeWhile py_isdigit t) @ dropWhile py_isdigit t"
        using s Cons True by (metis append_Cons append_assoc append_Nil takeWhile_dropWhile_id)
      have dr: "drop (length (c # ?tw @ [46] @ takeWhile py_isdigit t)) (c # s) = dropWhile py_isdigit t"
        by (subst s') (simp only: append_eq_conv_conj drop_append length_append, simp)
      have tk: "take (length (c # ?tw @ [46] @ takeWhile py_isdigit t)) (c # s)
                = c # ?tw @ [46] @ takeWhile py_isdigit t"
        by (subst s') (simp only: take_append, simp)
      show ?thesis unfolding m np dr using Cons True tk
        by (simp add: K2e K3e KG_def add.commute add.left_commute)
    next
      case False
      have np: "number_prefix (c # s) = c # ?tw"
        using assms Cons False by (simp add: number_prefix_def Let_def)
      have nd: "\<not> py_isdigit d" using Cons by (metis hd_dropWhile list.sel(1) list.distinct(1))
      have dr: "drop (length (c # ?tw)) (c # s) = ?dw"
        by (simp add: dropWhile_eq_drop)
      have tk: "take (length (c # ?tw)) (c # s) = c # ?tw"
        by (simp add: takeWhile_eq_take[symmetric])
      show ?thesis unfolding m np dr using Cons False nd tk
        by (simp add: K2e K3e KG_def)
    qed
  qed
qed

lemma score_number_at_other:
  "(case s of [] \<Rightarrow> True | c # t \<Rightarrow> \<not> py_isdigit c) \<Longrightarrow>
   rmatch score_number (Mst p s None) Some = None"
  unfolding score_number_def Cat.simps Plus_def
  by (cases s) (simp_all add: digit_class)

lemma search_score_number:
  "search_from score_number p body =
     (if list_ex py_isdigit body
      then Some (Match (p + length (takeWhile (\<lambda>c. \<not> py_isdigit c) body))
                       (p + length (takeWhile (\<lambda>c. \<not> py_isdigit c) body) + length (first_number body))
                       (Some (first_number body)))
      else None)"
proof (induction body arbitrary: p)
  case Nil
  then show ?case using score_number_at_other[of "[]" p] by simp
next
  case (Cons c body)
  show ?case
  proof (cases "py_isdigit c")
    case True
    then show ?thesis using score_number_at_digit[OF True, of p body]
      by (simp add: first_number_def)
  next
    case False
    then have "rmatch score_number (Mst p (c # body) None) Some = None"
      by (intro score_number_at_other) simp
    then show ?thesis using False Cons.IH[of "Suc p"]
      by (simp add: first_number_def)
  qed
qed

section \<open>Words and trimming\<close>

lemma split_ws_spaces:
  "\<forall>c \<in> set t. py_isspace c \<Longrightarrow> split_ws cur t = (if cur = [] then [] else [cur])"
  by (induction t arbitrary: cur) auto

lemma split_ws_trailing:
  "\<forall>c \<in> set t. py_isspace c \<Longrightarrow> split_ws cur (s @ t) = split_ws cur s"
  by (induction s arbitrary: cur) (auto simp: split_ws_spaces)

lemma split_ws_leading: "split_ws [] (dropWhile py_isspace s) = split_ws [] s"
  by (induction s) auto

lemma py_split_strip: "py_split (py_strip s) = py_split s"
proof -
  define s1 where "s1 = dropWhile py_isspace s"
  define keep where "keep = rev (dropWhile py_isspace (rev s1))"
  define trail where "trail = rev (takeWhile py_isspace (rev s1))"
  have "keep @ trail = rev (takeWhile py_isspace (rev s1) @ dropWhile py_isspace (rev s1))"
    unfolding keep_def trail_def by (simp only: rev_append)
  also have "\<dots> = s1" by (simp only: takeWhile_dropWhile_id rev_rev_ident)
  finally have s1: "s1 = keep @ trail" by simp
  have "\<forall>c \<in> set trail. py_isspace c" unfolding trail_def by (auto dest: set_takeWhileD)
  then have "split_ws [] (keep @ trail) = split_ws [] keep" by (rule split_ws_trailing)
  then have "split_ws [] keep = split_ws [] s1" using s1 by simp
  also have "\<dots> = split_ws [] s" unfolding s1_def by (rule split_ws_leading)
  finally show ?thesis by (simp add: py_split_def py_strip_def keep_def s1_def)
qed

section \<open>A parenthetical at the end of a name\<close>

lemma lower_cp_paren:
  "lower_cp x = 40 \<longleftrightarrow> x = 40" "lower_cp x = 41 \<longleftrightarrow> x = 41" "lower_cp x = 0xFF08 \<longleftrightarrow> x = 0xFF08"
  by (auto simp: lower_cp_def)

lemma py_lower_paren:
  "40 \<in> set (py_lower s) \<longleftrightarrow> 40 \<in> set s" "41 \<in> set (py_lower s) \<longleftrightarrow> 41 \<in> set s"
  "0xFF08 \<in> set (py_lower s) \<longleftrightarrow> 0xFF08 \<in> set s"
  by (auto simp: py_lower_def lower_cp_paren image_iff)

lemma split_ws_append_space:
  "py_isspace c \<Longrightarrow> split_ws cur (A @ c # B) = split_ws cur A @ split_ws [] B"
  by (induction A arbitrary: cur) auto

lemma set_split_ws: "w \<in> set (split_ws cur s) \<Longrightarrow> set w \<subseteq> set cur \<union> set s"
proof (induction s arbitrary: cur)
  case Nil
  then show ?case by (auto split: if_splits)
next
  case (Cons c s)
  show ?case
  proof (cases "py_isspace c")
    case True
    with Cons.prems have "w = cur \<or> w \<in> set (split_ws [] s)" by (auto split: if_splits)
    then show ?thesis using Cons.IH[of "[]"] by auto
  next
    case False
    with Cons.prems have "w \<in> set (split_ws (cur @ [c]) s)" by simp
    from Cons.IH[OF this] show ?thesis by auto
  qed
qed

lemma set_py_join: "set (py_join sep wl) \<subseteq> set (concat wl) \<union> set sep"
  by (induction sep wl rule: py_join.induct) auto

lemma py_join_append:
  "L1 \<noteq> [] \<Longrightarrow> L2 \<noteq> [] \<Longrightarrow> py_join sep (L1 @ L2) = py_join sep L1 @ sep @ py_join sep L2"
proof (induction sep L1 rule: py_join.induct)
  case (1 sep)
  then show ?case by simp
next
  case (2 sep w)
  then show ?case by (cases L2) auto
next
  case (3 sep w v va)
  then show ?case by simp
qed

lemma split_ws_closing:
  "\<not> py_isspace e \<Longrightarrow>
   split_ws cur (r @ [e]) \<noteq> [] \<and>
   (\<exists>m. py_join [32] (split_ws cur (r @ [e])) = cur @ m @ [e] \<and> set m \<subseteq> set r \<union> {32})"
proof (induction r arbitrary: cur)
  case Nil
  then show ?case by simp
next
  case (Cons c r)
  show ?case
  proof (cases "py_isspace c")
    case True
    from Cons.IH[OF Cons.prems, of "[]"] obtain m where
      ne: "split_ws [] (r @ [e]) \<noteq> []" and
      m: "py_join [32] (split_ws [] (r @ [e])) = m @ [e]" "set m \<subseteq> set r \<union> {32}"
      by auto
    show ?thesis
    proof (cases "cur = []")
      case c: True
      with True ne m show ?thesis by auto
    next
      case c: False
      obtain w wl where wl: "split_ws [] (r @ [e]) = w # wl" using ne by (cases "split_ws [] (r @ [e])") auto
      have "py_join [32] (cur # split_ws [] (r @ [e])) = cur @ [32] @ py_join [32] (split_ws [] (r @ [e]))"
        by (simp add: wl)
      then have "py_join [32] (cur # split_ws [] (r @ [e])) = cur @ (32 # m) @ [e]"
        using m(1) by simp
      moreover have "set (32 # m) \<subseteq> set (c # r) \<union> {32}" using m(2) by auto
      ultimately show ?thesis using True c by (auto simp del: py_join.simps)
    qed
  next
    case False
    from Cons.IH[OF Cons.prems, of "cur @ [c]"] obtain m where
      ne: "split_ws (cur @ [c]) (r @ [e]) \<noteq> []" and
      m: "py_join [32] (split_ws (cur @ [c]) (r @ [e])) = (cur @ [c]) @ m @ [e]" "set m \<subseteq> set r \<union> {32}"
      by auto
    have "set (c # m) \<subseteq> set (c # r) \<union> {32}" using m(2) by auto
    moreover have "py_join [32] (split_ws (cur @ [c]) (r @ [e])) = cur @ (c # m) @ [e]"
      using m(1) by simp
    ultimately show ?thesis using False ne by (auto simp del: py_join.simps)
  qed
qed

lemma star_until:
  "c \<notin> set mid \<Longrightarrow> k (Mst (q + length mid) (c # t) g) \<noteq> None \<Longrightarrow>
   rmatch (Star (NotIn [Ch c])) (Mst q (mid @ c # t) g) k = k (Mst (q + length mid) (c # t) g)"
proof (induction mid arbitrary: q)
  case Nil
  then show ?case by (simp add: cls_has_def)
next
  case (Cons d mid)
  have "k (Mst (Suc q + length mid) (c # t) g) \<noteq> None" using Cons.prems(2) by simp
  with Cons.IH[of "Suc q"] Cons.prems(1)
  have ih: "rmatch (Star (NotIn [Ch c])) (Mst (Suc q) (mid @ c # t) g) k = k (Mst (Suc q + length mid) (c # t) g)"
    by simp
  have "rmatch (Star (NotIn [Ch c])) (Mst (Suc q) (mid @ c # t) g) k \<noteq> None"
    unfolding ih using Cons.prems(2) by simp
  then show ?case using Cons.prems(1) ih
    by (simp add: cls_has_def case_option_id)
qed

lemma paren_ascii_at:
  "41 \<notin> set mid \<Longrightarrow>
   rmatch paren_ascii (Mst q (40 # mid @ [41]) None) Some = Some (Mst (q + length mid + 2) [] None)"
  unfolding paren_ascii_def Cat.simps
  using star_until[of 41 mid "\<lambda>st'. rmatch (Lit [41]) st' Some" "Suc q" "[]" None]
  by simp

lemma paren_ascii_search:
  assumes "40 \<notin> set pre" "41 \<notin> set mid"
  shows "search_from paren_ascii p (pre @ 40 # mid @ [41])
         = Some (Match (p + length pre) (p + length pre + length mid + 2) None)"
proof -
  have "search_from paren_ascii p (pre @ 40 # mid @ [41])
        = search_from paren_ascii (p + length pre) (40 # mid @ [41])"
  proof (rule search_skip)
    fix i assume i: "i < length pre"
    then obtain d t where dt: "drop i pre = d # t" by (cases "drop i pre") auto
    then have "d \<in> set pre" by (metis in_set_dropD list.set_intros(1))
    with assms(1) have "d \<noteq> 40" by auto
    then show "rmatch paren_ascii (Mst (p + i) (drop i pre @ 40 # mid @ [41]) None) Some = None"
      by (simp add: paren_ascii_def dt)
  qed
  then show ?thesis using paren_ascii_at[OF assms(2), of "p + length pre"] by simp
qed

lemma paren_ascii_del:
  assumes "40 \<notin> set pre" "41 \<notin> set mid"
  shows "re_sub_del paren_ascii (pre @ 40 # mid @ [41]) = pre"
proof -
  have e: "rmatch paren_ascii (Mst q [] None) Some = None" for q
    by (simp add: paren_ascii_def)
  show ?thesis
    unfolding re_sub_del_def
    by (simp add: paren_ascii_search[OF assms] e)
qed

lemma paren_ascii_keep: "40 \<notin> set s \<Longrightarrow> re_sub_del paren_ascii s = s"
  unfolding re_sub_del_def paren_ascii_def Cat.simps
  by (subst sub_from.simps) (simp add: lit_search_none)

lemma paren_cjk_keep: "0xFF08 \<notin> set s \<Longrightarrow> re_sub_del paren_cjk s = s"
  unfolding re_sub_del_def paren_cjk_def Cat.simps
  by (subst sub_from.simps) (simp add: lit_search_none)

lemma py_strip_space: "py_strip (s @ [32]) = py_strip s"
proof -
  have sp: "py_isspace 32" by (simp add: py_isspace_def)
  show ?thesis
  proof (cases "\<forall>c \<in> set s. py_isspace c")
    case True
    then show ?thesis using sp by (auto simp: py_strip_def dropWhile_append dest: set_dropWhileD)
  next
    case False
    then have "dropWhile py_isspace (s @ [32]) = dropWhile py_isspace s @ [32]"
      by (simp add: dropWhile_append)
    then show ?thesis using sp by (simp add: py_strip_def)
  qed
qed

lemma trailing_parenthetical:
  assumes "40 \<notin> set name" "0xFF08 \<notin> set name" "41 \<notin> set content"
  shows "normalize_eif_name (name @ u '' ('' @ content @ u '')'') = normalize_eif_name name"
proof -
  define A where "A = py_split (py_lower name)"
  define B where "B = split_ws [40] (py_lower content @ [41])"
  have sp: "py_isspace 32" "\<not> py_isspace 40" "\<not> py_isspace 41" by (simp_all add: py_isspace_def)
  have lw: "py_lower (name @ u '' ('' @ content @ u '')'')
            = py_lower name @ 32 # (40 # py_lower content @ [41])"
    by (simp add: py_lower_def u_def lower_cp_def)
  have words: "py_split (py_strip (py_lower (name @ u '' ('' @ content @ u '')''))) = A @ B"
    unfolding py_split_strip lw
    by (simp add: py_split_def split_ws_append_space[OF sp(1)] sp A_def B_def)
  from split_ws_closing[OF sp(3), of "[40]" "py_lower content"] obtain m where
    Bne: "B \<noteq> []" and Bj: "py_join [32] B = 40 # m @ [41]" and
    ms: "set m \<subseteq> set (py_lower content) \<union> {32}"
    unfolding B_def by auto
  have m41: "41 \<notin> set m" using ms assms(3) by (auto simp: py_lower_paren)
  have "set (concat A) \<subseteq> set (py_lower name)"
    using set_split_ws[of _ "[]" "py_lower name"] by (auto simp: A_def py_split_def)
  moreover have "set (py_join [32] A) \<subseteq> set (concat A) \<union> set [32]"
    by (rule set_py_join)
  ultimately have "set (py_join [32] A) \<subseteq> set (py_lower name) \<union> {32}"
    by (simp only: list.set) blast
  then have A40: "40 \<notin> set (py_join [32] A)" and Acjk: "0xFF08 \<notin> set (py_join [32] A)"
    using assms(1,2) by (auto simp: py_lower_paren)
  have rhs: "normalize_eif_name name = py_strip (py_join [32] A)"
    by (simp add: normalize_eif_name_def Let_def py_split_strip A_def[symmetric]
        paren_ascii_keep[OF A40] paren_cjk_keep[OF Acjk])
  show ?thesis
  proof (cases "A = []")
    case True
    have "re_sub_del paren_ascii (py_join [32] (A @ B)) = []"
      using paren_ascii_del[of "[]" m] m41 by (simp add: True Bj)
    then show ?thesis unfolding rhs
      by (simp add: normalize_eif_name_def Let_def words True paren_cjk_keep)
  next
    case False
    have j: "py_join [32] (A @ B) = (py_join [32] A @ [32]) @ 40 # m @ [41]"
      by (simp add: py_join_append[OF False Bne] Bj)
    have "re_sub_del paren_ascii (py_join [32] (A @ B)) = py_join [32] A @ [32]"
      unfolding j using A40 m41 by (intro paren_ascii_del) auto
    moreover have "re_sub_del paren_cjk (py_join [32] A @ [32]) = py_join [32] A @ [32]"
      using Acjk by (intro paren_cjk_keep) auto
    ultimately show ?thesis unfolding rhs
      by (simp add: normalize_eif_name_def Let_def words py_strip_space)
  qed
qed

section \<open>The claims\<close>

text \<open>
  C1. For every predicted list, every ground-truth list and every language model, the
  report of \<open>calculate_eif_similarity\<close> has precision, recall and F1 between 0 and 1. With
  total = exact_matches + fuzzy_score, precision is total / len(predicted) and recall is
  total / len(ground_truth) when both lists are non-empty, and F1 is 2pr/(p+r) when
  p + r > 0 and 0 otherwise. Every similarity score the function uses lies in [0,1]: the
  score of the language model is clamped and the string similarity is a Jaccard index, so
  the bounds need no assumption on the oracle.
\<close>

theorem calculate_eif_similarity_bounds:
  "let r = fst (calculate_eif_similarity predicted ground_truth lm use s);
       total = real (exact_matches r) + fuzzy_score r
   in 0 \<le> precision r \<and> precision r \<le> 1 \<and> 0 \<le> recall r \<and> recall r \<le> 1 \<and>
      0 \<le> f1_score r \<and> f1_score r \<le> 1 \<and>
      (predicted \<noteq> [] \<and> ground_truth \<noteq> [] \<longrightarrow>
         precision r = total / real (length predicted) \<and>
         recall r = total / real (length ground_truth)) \<and>
      f1_score r = (if precision r + recall r > 0
                    then 2 * precision r * recall r / (precision r + recall r) else 0)"
proof (cases "predicted = [] \<or> ground_truth = []")
  case True
  then show ?thesis by (auto simp: calculate_eif_similarity_def Let_def)
next
  case False
  then have ne: "predicted \<noteq> []" "ground_truth \<noteq> []" by auto
  define pred_set where "pred_set = normalize_eif_name ` set predicted"
  define truth_set where "truth_set = normalize_eif_name ` set ground_truth"
  define up where "up = map (\<lambda>y. (normalize_eif_name y, y))
     (filter (\<lambda>y. normalize_eif_name y \<notin> truth_set) predicted)"
  define ut where "ut = map (\<lambda>y. (normalize_eif_name y, y))
     (filter (\<lambda>y. normalize_eif_name y \<notin> pred_set) ground_truth)"
  define exact where "exact = card (pred_set \<inter> truth_set)"
  from calculate_nonempty[OF ne, of lm use s] obtain fuzzy matched details s' where
    ml: "match_loop lm use ut up (0, {}, [], s) = (fuzzy, matched, details, s')" and
    res: "calculate_eif_similarity predicted ground_truth lm use s =
       (let total = real exact + fuzzy;
            p = total / real (length predicted);
            r = total / real (length ground_truth)
        in (\<lparr>f1_score = (if p + r = 0 then 0 else 2 * (p * r) / (p + r)), precision = p, recall = r,
             exact_matches = exact, fuzzy_score = fuzzy,
             semantic_matches = details\<rparr>, s'))"
    unfolding pred_set_def truth_set_def up_def ut_def exact_def by blast
  have inv: "loop_inv ut (fuzzy, matched, details, s')"
    using match_loop_inv[OF loop_inv_init, of ut lm use up s] ml by simp
  from loop_inv_counts[OF inv] have fz: "0 \<le> fuzzy" "fuzzy \<le> real (length details)"
    and dut: "length details \<le> length ut" by auto
  from match_loop_preds[of lm use ut up "(0, {}, [], s)"] ml
  have "subseq (map m_pred details) (map snd up)" by simp
  then have "length (map m_pred details) \<le> length (map snd up)" by (rule list_emb_length)
  then have dup: "length details \<le> length up" by simp
  have "exact + length up \<le> length predicted"
    using exact_plus_unmatched[of normalize_eif_name predicted truth_set]
    by (simp add: exact_def up_def pred_set_def Int_commute)
  with dup fz have tp: "real exact + fuzzy \<le> real (length predicted)" by linarith
  have "exact + length ut \<le> length ground_truth"
    using exact_plus_unmatched[of normalize_eif_name ground_truth pred_set]
    by (simp add: exact_def ut_def truth_set_def Int_commute)
  with dut fz have tr: "real exact + fuzzy \<le> real (length ground_truth)" by linarith
  define p where "p = (real exact + fuzzy) / real (length predicted)"
  define r where "r = (real exact + fuzzy) / real (length ground_truth)"
  have lp: "0 < real (length predicted)" "0 < real (length ground_truth)" using ne by auto
  have pb: "0 \<le> p" "p \<le> 1" using fz tp lp by (simp_all add: p_def divide_le_eq_1)
  have rb: "0 \<le> r" "r \<le> 1" using fz tr lp by (simp_all add: r_def divide_le_eq_1)
  have f1: "0 \<le> (if p + r = 0 then 0 else 2 * (p * r) / (p + r)) \<and>
         (if p + r = 0 then 0 else 2 * (p * r) / (p + r)) \<le> 1"
    using f1_bounds[OF pb(1) pb(2) rb(1) rb(2)] .
  have eq: "(p + r = 0) = (\<not> 0 < p + r)" using pb rb by linarith
  have res': "fst (calculate_eif_similarity predicted ground_truth lm use s) =
     \<lparr>f1_score = (if p + r = 0 then 0 else 2 * (p * r) / (p + r)), precision = p, recall = r,
      exact_matches = exact, fuzzy_score = fuzzy, semantic_matches = details\<rparr>"
    by (simp add: res Let_def p_def r_def)
  show ?thesis
    unfolding Let_def res' using pb rb f1 ne eq by (simp add: p_def[symmetric] r_def[symmetric])
qed

theorem calculate_eif_similarity_bounds_witness:
  "[u ''a b c d e f g h'', u ''Job Info''] \<noteq> [] \<and>
   [u ''a b c d e f g i'', u ''job   info (x)''] \<noteq> [] \<and>
   fst (calculate_eif_similarity [u ''a b c d e f g h'', u ''Job Info'']
          [u ''a b c d e f g i'', u ''job   info (x)''] None False ())
     = \<lparr>f1_score = 8 / 9, precision = 8 / 9, recall = 8 / 9, exact_matches = 1,
        fuzzy_score = 7 / 9,
        semantic_matches = [\<lparr>m_pred = u ''a b c d e f g h'', m_truth = u ''a b c d e f g i'',
                              m_score = 7 / 9\<rparr>]\<rparr> \<and>
   (8 / 9 :: real) = (real 1 + 7 / 9) / real (length [u ''a b c d e f g h'', u ''Job Info''])"
  using calculate_eif_similarity_bounds
    [of "[u ''a b c d e f g h'', u ''Job Info'']" "[u ''a b c d e f g i'', u ''job   info (x)'']"
        None False "()"]
  by (simp add: str_defs norm_defs score_defs Let_def card_insert_if)

text \<open>
  C2. On two empty lists \<open>calculate_eif_similarity\<close> returns precision = recall = F1 = 1.0
  with exact_matches = 0 and fuzzy_score = 0.0; when exactly one of the lists is empty it
  returns precision = recall = F1 = 0.0. In both cases the language model is not queried.
\<close>

theorem calculate_eif_similarity_empty:
  "calculate_eif_similarity [] [] lm use s =
     (\<lparr>f1_score = 1, precision = 1, recall = 1, exact_matches = 0, fuzzy_score = 0,
       semantic_matches = []\<rparr>, s) \<and>
   calculate_eif_similarity [] (t # ts) lm use s =
     (\<lparr>f1_score = 0, precision = 0, recall = 0, exact_matches = 0, fuzzy_score = 0,
       semantic_matches = []\<rparr>, s) \<and>
   calculate_eif_similarity (p # ps) [] lm use s =
     (\<lparr>f1_score = 0, precision = 0, recall = 0, exact_matches = 0, fuzzy_score = 0,
       semantic_matches = []\<rparr>, s)"
  by (simp add: calculate_eif_similarity_def)

text \<open>
  C3, as stated: a predicted item is accepted as a fuzzy match exactly when its best score
  exceeds 0.7, so a best score of 0.70001 is accepted. This fails: the test of the source
  is \<open>max_similarity > 0.7 and best_match\<close>, and the normalised name \<open>best_match\<close> of the
  ground-truth item \<open>(y)\<close> is the empty string, which is false in Python. With a language
  model that scores the pair 0.70001 the item stays unmatched.
\<close>

theorem fuzzy_threshold_counterexample:
  "best_match_loop (Some (lm_says (u ''0.70001''))) True (u ''x'', u ''x'') {} [([], u ''(y)'')]
      (0, None, ())
     = (70001 / 100000, Some ([], u ''(y)''), ()) \<and>
   (7 / 10 :: real) < 70001 / 100000 \<and>
   calculate_eif_similarity [u ''x''] [u ''(y)''] (Some (lm_says (u ''0.70001''))) True ()
     = (\<lparr>f1_score = 0, precision = 0, recall = 0, exact_matches = 0, fuzzy_score = 0,
         semantic_matches = []\<rparr>, ())"
  by (simp add: str_defs norm_defs score_defs lm_says_def Let_def card_insert_if)

text \<open>
  C3, as amended: a predicted item is accepted as a fuzzy match exactly when its best
  score against the remaining ground-truth items strictly exceeds 0.7 and the normalised
  name of that best item is not empty. A best score equal to 0.7 is never accepted, a best
  score of 0.70001 is accepted when the normalised name is not empty, and an accepted match
  adds its own score (not 1.0) to fuzzy_score: every recorded match has a score above 0.7,
  and fuzzy_score is the sum of the recorded scores.
\<close>

theorem fuzzy_threshold_strict:
  fixes lm :: "'s lm option" and s :: 's
  shows
  "(case best_match_loop lm use pred matched ut (0, None, s) of
      (max_similarity, best, s') \<Rightarrow>
        match_loop lm use ut [pred] (fz, matched, ds, s) =
          (case best of
             None \<Rightarrow> (fz, matched, ds, s')
           | Some (best_match, best_match_orig) \<Rightarrow>
               if max_similarity > 7 / 10 \<and> best_match \<noteq> []
               then (fz + max_similarity, insert best_match_orig matched,
                     ds @ [\<lparr>m_pred = snd pred, m_truth = best_match_orig,
                             m_score = max_similarity\<rparr>], s')
               else (fz, matched, ds, s'))) \<and>
   accepted (7 / 10) best = None \<and>
   (bm \<noteq> [] \<longrightarrow> accepted (70001 / 100000) (Some (bm, orig)) = Some orig) \<and>
   (let r = fst (calculate_eif_similarity predicted ground_truth lm use s)
    in (\<forall>m \<in> set (semantic_matches r). 7 / 10 < m_score m \<and> normalize_eif_name (m_truth m) \<noteq> []) \<and>
       fuzzy_score r = sum_list (map m_score (semantic_matches r)))"
proof -
  have step: "(case best_match_loop lm use pred matched ut (0, None, s) of
      (max_similarity, best, s') \<Rightarrow>
        match_loop lm use ut [pred] (fz, matched, ds, s) =
          (case best of
             None \<Rightarrow> (fz, matched, ds, s')
           | Some (best_match, best_match_orig) \<Rightarrow>
               if max_similarity > 7 / 10 \<and> best_match \<noteq> []
               then (fz + max_similarity, insert best_match_orig matched,
                     ds @ [\<lparr>m_pred = snd pred, m_truth = best_match_orig,
                             m_score = max_similarity\<rparr>], s')
               else (fz, matched, ds, s')))"
    by (auto simp: accepted_def split: prod.splits option.splits)
  have a1: "accepted (7 / 10) best = None"
    by (auto simp: accepted_def split: option.splits)
  have a2: "bm \<noteq> [] \<longrightarrow> accepted (70001 / 100000) (Some (bm, orig)) = Some orig"
    by (simp add: accepted_def)
  define r where "r = fst (calculate_eif_similarity predicted ground_truth lm use s)"
  have rep: "(\<forall>m \<in> set (semantic_matches r). 7 / 10 < m_score m \<and> normalize_eif_name (m_truth m) \<noteq> []) \<and>
       fuzzy_score r = sum_list (map m_score (semantic_matches r))"
  proof (cases "predicted = [] \<or> ground_truth = []")
    case True
    from report_empty[OF this, of lm use s] show ?thesis by (simp add: r_def)
  next
    case False
    then have ne: "predicted \<noteq> []" "ground_truth \<noteq> []" by auto
    define ut' where "ut' = map (\<lambda>y. (normalize_eif_name y, y))
       (filter (\<lambda>y. normalize_eif_name y \<notin> normalize_eif_name ` set predicted) ground_truth)"
    from report_matches[OF ne, of lm use s] obtain m' and s' :: 's where
      inv: "loop_inv ut' (fuzzy_score r, m', semantic_matches r, s')"
      unfolding r_def ut'_def by blast
    then have f: "fuzzy_score r = sum_list (map m_score (semantic_matches r))"
      and a: "list_all (\<lambda>m. 7 / 10 < m_score m \<and> (\<exists>bm. bm \<noteq> [] \<and> (bm, m_truth m) \<in> set ut'))
                (semantic_matches r)"
      by (auto simp: loop_inv_def list_all_iff)
    from a have "\<forall>m \<in> set (semantic_matches r). 7 / 10 < m_score m \<and> normalize_eif_name (m_truth m) \<noteq> []"
      by (auto simp: list_all_iff ut'_def)
    with f show ?thesis by simp
  qed
  show ?thesis unfolding Let_def r_def[symmetric] using step a1 a2 rep by blast
qed

theorem fuzzy_threshold_strict_witness:
  "u ''y'' \<noteq> [] \<and>
   calculate_eif_similarity [u ''x''] [u ''y''] (Some (lm_says (u ''0.70001''))) True ()
     = (\<lparr>f1_score = 70001 / 100000, precision = 70001 / 100000, recall = 70001 / 100000,
         exact_matches = 0, fuzzy_score = 70001 / 100000,
         semantic_matches = [\<lparr>m_pred = u ''x'', m_truth = u ''y'', m_score = 70001 / 100000\<rparr>]\<rparr>, ()) \<and>
   calculate_eif_similarity [u ''x''] [u ''y''] (Some (lm_says (u ''0.7''))) True ()
     = (\<lparr>f1_score = 0, precision = 0, recall = 0, exact_matches = 0, fuzzy_score = 0,
         semantic_matches = []\<rparr>, ()) \<and>
   accepted (70001 / 100000) (Some (u ''y'', u ''y'')) = Some (u ''y'')"
  using fuzzy_threshold_strict
    [where lm = "Some (lm_says (u ''0.70001''))" and use = True and pred = "(u ''x'', u ''x'')"
       and matched = "{}" and ut = "[(u ''y'', u ''y'')]" and s = "()" and fz = 0 and ds = "[]"
       and best = None and bm = "u ''y''" and orig = "u ''y''" and predicted = "[u ''x'']"
       and ground_truth = "[u ''y'']"]
  by (simp add: str_defs norm_defs score_defs lm_says_def Let_def card_insert_if)

text \<open>
  C4. In the matches of \<open>calculate_eif_similarity\<close> each ground-truth name is claimed by
  at most one match: the ground-truth names of the matches are pairwise different. A
  ground-truth item that is matched exactly (its normalised name is the normalised name of
  a predicted item) is never claimed by a fuzzy match. Each predicted item appears in at
  most one match: the predicted names of the matches, in order, are a subsequence of the
  predicted list, so different matches belong to different positions of that list.
\<close>

theorem truth_claimed_at_most_once:
  fixes lm :: "'s lm option" and s :: 's
  shows "let ms = semantic_matches (fst (calculate_eif_similarity predicted ground_truth lm use s))
   in distinct (map m_truth ms) \<and>
      card (m_truth ` set ms) = length ms \<and>
      subseq (map m_pred ms) predicted \<and>
      (\<forall>m \<in> set ms. m_truth m \<in> set ground_truth \<and>
         normalize_eif_name (m_truth m) \<notin> normalize_eif_name ` set predicted)"
proof (cases "predicted = [] \<or> ground_truth = []")
  case True
  from report_empty[OF this, of lm use s] show ?thesis by (simp add: Let_def)
next
  case False
  then have ne: "predicted \<noteq> []" "ground_truth \<noteq> []" by auto
  define ms where "ms = semantic_matches (fst (calculate_eif_similarity predicted ground_truth lm use s))"
  define ut where "ut = map (\<lambda>y. (normalize_eif_name y, y))
     (filter (\<lambda>y. normalize_eif_name y \<notin> normalize_eif_name ` set predicted) ground_truth)"
  define up where "up = map (\<lambda>y. (normalize_eif_name y, y))
     (filter (\<lambda>y. normalize_eif_name y \<notin> normalize_eif_name ` set ground_truth) predicted)"
  from report_matches[OF ne, of lm use s] obtain fz matched and s' :: 's where
    inv: "loop_inv ut (fz, matched, ms, s')" and sub: "subseq (map m_pred ms) (map snd up)"
    unfolding ms_def ut_def up_def by blast
  from inv have d: "distinct (map m_truth ms)"
    and a: "list_all (\<lambda>m. \<exists>bm. bm \<noteq> [] \<and> (bm, m_truth m) \<in> set ut) ms"
    by (auto simp: loop_inv_def list_all_iff)
  have c: "card (m_truth ` set ms) = length ms" using distinct_card[OF d] by simp
  have "map snd up = filter (\<lambda>y. normalize_eif_name y \<notin> normalize_eif_name ` set ground_truth) predicted"
    by (simp add: up_def comp_def)
  then have "subseq (map snd up) predicted" by simp
  with sub have sp: "subseq (map m_pred ms) predicted" by (rule subseq_order.trans)
  have "\<forall>m \<in> set ms. m_truth m \<in> set ground_truth \<and>
         normalize_eif_name (m_truth m) \<notin> normalize_eif_name ` set predicted"
    using a by (auto simp: list_all_iff ut_def)
  with d c sp show ?thesis unfolding Let_def ms_def[symmetric] by simp
qed

theorem truth_claimed_at_most_once_witness:
  "semantic_matches (fst (calculate_eif_similarity
      [u ''a b c d e f g h'', u ''a b c d e f g h'']
      [u ''a b c d e f g i'', u ''a b c d e f g j''] None False ()))
     = [\<lparr>m_pred = u ''a b c d e f g h'', m_truth = u ''a b c d e f g i'', m_score = 7 / 9\<rparr>,
        \<lparr>m_pred = u ''a b c d e f g h'', m_truth = u ''a b c d e f g j'', m_score = 7 / 9\<rparr>] \<and>
   distinct [u ''a b c d e f g i'', u ''a b c d e f g j''] \<and>
   subseq [u ''a b c d e f g h'', u ''a b c d e f g h'']
          [u ''a b c d e f g h'', u ''a b c d e f g h'']"
  using truth_claimed_at_most_once
    [of "[u ''a b c d e f g h'', u ''a b c d e f g h'']"
        "[u ''a b c d e f g i'', u ''a b c d e f g j'']" None False "()"]
  by (simp add: str_defs norm_defs score_defs Let_def card_insert_if)

text \<open>
  C5. The claim: \<open>normalize_eif_name\<close> trims, lower-cases, strips the content inside \<open>()\<close>
  and inside the full-width parentheses, and then collapses the whitespace runs, so that
  two names that differ only by case, whitespace or parenthesised content normalise
  identically. The source collapses the whitespace before it strips the parentheses and
  only trims afterwards. For a parenthetical at the start or at the end of a name, or one
  written without a space before it, the result is the same: \<open>Client Info (legacy)\<close>,
  \<open>Client Info(legacy)\<close>, \<open>(legacy) Client Info\<close> and the first of them with full-width
  parentheses all normalise to \<open>client info\<close>. For a parenthetical between two words the
  two spaces around it are left in the result: \<open>a (x) b\<close>, with ASCII or with full-width
  parentheses, normalises to \<open>a  b\<close> with two spaces, while \<open>a b\<close> normalises to \<open>a b\<close>;
  the steps in the order of the claim (\<open>normalize_spec\<close>) give \<open>a b\<close> for all three.
\<close>

theorem normalize_interior_parenthetical:
  "normalize_eif_name (u ''a (x) b'') = u ''a  b'' \<and>
   normalize_eif_name (u ''a '' @ [0xFF08, 120, 0xFF09] @ u '' b'') = u ''a  b'' \<and>
   normalize_eif_name (u ''a b'') = u ''a b'' \<and>
   u ''a  b'' \<noteq> u ''a b'' \<and>
   normalize_spec (u ''a (x) b'') = u ''a b'' \<and>
   normalize_spec (u ''a '' @ [0xFF08, 120, 0xFF09] @ u '' b'') = u ''a b'' \<and>
   normalize_spec (u ''a b'') = u ''a b'' \<and>
   normalize_eif_name (u ''Client Info (legacy)'') = u ''client info'' \<and>
   normalize_eif_name (u ''Client Info(legacy)'') = u ''client info'' \<and>
   normalize_eif_name (u ''(legacy) Client Info'') = u ''client info'' \<and>
   normalize_eif_name (u ''Client Info '' @ [0xFF08] @ u ''legacy'' @ [0xFF09]) = u ''client info'' \<and>
   normalize_eif_name (u ''Client Info'') = u ''client info''"
  by (simp add: str_defs norm_defs normalize_spec_def)

text \<open>
  C6. \<open>check_eif_semantic_similarity\<close> returns a score for every behaviour of the language
  model, also when the query raises: it has no outcome other than a score. When the first
  response text holds a digit, the score is the first decimal number of the text clamped to
  [0,1]; when the query raises, gives no response text, or the first text holds no digit,
  the score is \<open>_string_similarity\<close> of the same two names. Without a language model, or
  with \<open>use_lm\<close> off, it is \<open>_string_similarity\<close> as well. The score is always in [0,1].
\<close>

theorem semantic_oracle_fallback:
  fixes query :: "'s lm" and s :: 's
  shows
  "(case query name1 name2 s of
      (reply, s') \<Rightarrow>
        check_eif_semantic_similarity name1 name2 (Some query) True s =
          (case reply of
             Raises \<Rightarrow> (string_similarity name1 name2, s')
           | Texts [] \<Rightarrow> (string_similarity name1 name2, s')
           | Texts (first # others) \<Rightarrow>
               if list_ex py_isdigit (py_strip first)
               then (max 0 (min 1 (py_float (first_number (py_strip first)))), s')
               else (string_similarity name1 name2, s'))) \<and>
   check_eif_semantic_similarity name1 name2 None use s = (string_similarity name1 name2, s) \<and>
   check_eif_semantic_similarity name1 name2 lm False s = (string_similarity name1 name2, s) \<and>
   0 \<le> fst (check_eif_semantic_similarity name1 name2 lm use s) \<and>
   fst (check_eif_semantic_similarity name1 name2 lm use s) \<le> 1"
proof -
  have a: "llm_attempt (Texts (first # others)) =
     (if list_ex py_isdigit (py_strip first)
      then Returned (max 0 (min 1 (py_float (first_number (py_strip first)))))
      else Fell_through)" for first others
    by (simp add: llm_attempt_def Let_def re_search_def search_score_number)
  have 1: "(case query name1 name2 s of
      (reply, s') \<Rightarrow>
        check_eif_semantic_similarity name1 name2 (Some query) True s =
          (case reply of
             Raises \<Rightarrow> (string_similarity name1 name2, s')
           | Texts [] \<Rightarrow> (string_similarity name1 name2, s')
           | Texts (first # others) \<Rightarrow>
               if list_ex py_isdigit (py_strip first)
               then (max 0 (min 1 (py_float (first_number (py_strip first)))), s')
               else (string_similarity name1 name2, s')))"
  proof (cases "query name1 name2 s")
    case (Pair reply s')
    show ?thesis
    proof (cases reply)
      case Raises
      with Pair show ?thesis by (simp add: check_eif_semantic_similarity_def llm_attempt_def)
    next
      case (Texts ts)
      show ?thesis
      proof (cases ts)
        case Nil
        with Pair Texts show ?thesis by (simp add: check_eif_semantic_similarity_def llm_attempt_def)
      next
        case (Cons first others)
        with Pair Texts show ?thesis by (simp add: check_eif_semantic_similarity_def a)
      qed
    qed
  qed
  have 2: "check_eif_semantic_similarity name1 name2 None use s = (string_similarity name1 name2, s)"
    by (simp add: check_eif_semantic_similarity_def)
  have 3: "check_eif_semantic_similarity name1 name2 lm False s = (string_similarity name1 name2, s)"
    by (simp add: check_eif_semantic_similarity_def split: option.splits)
  from 1 2 3 check_bounds[of name1 name2 lm use s] show ?thesis by blast
qed

theorem semantic_oracle_fallback_examples:
  "check_eif_semantic_similarity (u ''a'') (u ''a b'') (Some (lm_says (u ''Score: 0.85 (high)''))) True ()
     = (17 / 20, ()) \<and>
   check_eif_semantic_similarity (u ''a'') (u ''a b'') (Some (lm_says (u ''7''))) True () = (1, ()) \<and>
   check_eif_semantic_similarity (u ''a'') (u ''a b'') (Some (lm_says (u ''no idea''))) True ()
     = (1 / 2, ()) \<and>
   check_eif_semantic_similarity (u ''a'') (u ''a b'') (Some (\<lambda>n1 n2 s. (Raises, s))) True ()
     = (1 / 2, ()) \<and>
   check_eif_semantic_similarity (u ''a'') (u ''a b'') (Some (\<lambda>n1 n2 s. (Texts [], s))) True ()
     = (1 / 2, ()) \<and>
   string_similarity (u ''a'') (u ''a b'') = 1 / 2"
  using semantic_oracle_fallback[where query = "lm_says (u ''Score: 0.85 (high)'')"
      and ?name1.0 = "u ''a''" and ?name2.0 = "u ''a b''" and s = "()"]
  by (simp add: str_defs score_defs lm_says_def Let_def card_insert_if)

text \<open>
  C7, as stated: for every text that ends in \<open>EIF list: [Job Info, Employee Info]\<close> the
  extraction returns the two names, and for every text that ends in \<open>EIF list: none\<close> it
  returns the empty list. This fails: no pattern of the source has the English label
  \<open>EIF list\<close> (the labels are Chinese), so the first text is split at the comma as a whole
  and the second is taken as a single name. And with the label of the source, a text that
  has another labelled list before the final line gives that earlier list: in a text of
  at most 500 characters (fourth conjunct), and also in a longer text (last conjunct),
  where the stage for long texts is meant to take the final conclusion.
\<close>

theorem extract_answer_english_label_counterexample:
  "extract_answer (u ''EIF list: [Job Info, Employee Info]'')
     = [u ''EIF list: Job Info'', u ''Employee Info''] \<and>
   [u ''EIF list: Job Info'', u ''Employee Info''] \<noteq> [u ''Job Info'', u ''Employee Info''] \<and>
   extract_answer (u ''EIF list: none'') = [u ''EIF list: none''] \<and>
   extract_answer (zuizhong @ eif_label @ u '': [X]'' @ [10] @ job_list_line) = [u ''X''] \<and>
   500 < length (eif_label @ [0xFF1A] @ u ''[X]'' @ [10] @ analysis_text @ [10] @ job_list_line) \<and>
   extract_answer (eif_label @ [0xFF1A] @ u ''[X]'' @ [10] @ analysis_text @ [10] @ job_list_line)
     = [u ''X'']"
proof -
  have "extract_answer (u ''EIF list: [Job Info, Employee Info]'')
     = [u ''EIF list: Job Info'', u ''Employee Info''] \<and>
   [u ''EIF list: Job Info'', u ''Employee Info''] \<noteq> [u ''Job Info'', u ''Employee Info''] \<and>
   extract_answer (u ''EIF list: none'') = [u ''EIF list: none''] \<and>
   extract_answer (zuizhong @ eif_label @ u '': [X]'' @ [10] @ job_list_line) = [u ''X'']"
    by (simp add: str_defs pat_defs stage_defs job_list_line_def)
  moreover have "length analysis_text = 524"
    by (simp add: analysis_text_def u_def)
  then have "500 < length (eif_label @ [0xFF1A] @ u ''[X]'' @ [10] @ analysis_text @ [10] @ job_list_line)"
    by simp
  ultimately show ?thesis using long_text_first_list by blast
qed

text \<open>
  C7, as amended: for every text that ends in the labelled list made of the label of the
  source (\<open>eif_label\<close>), a full-width colon and \<open>[Job Info, Employee Info]\<close>, and in which no
  list label occurs before that final line (\<open>labelled_earlier\<close>: the word \<open>liebiao\<close>
  followed, directly or after one or two asterisks, by a colon, or \<open>perspective_label\<close>
  followed by a colon), \<open>extract_answer\<close> returns exactly the two names; for every such text
  that ends in the label, the colon and \<open>none\<close> it returns the empty list. Both hold for
  texts of any length, and whatever else stands before the final line: asterisks, the
  words \<open>zuizhong\<close> and \<open>gongnengdian\<close>, or \<open>gongnengdian\<close> with a colon and a text of its own.
  Nothing is said about a text with an earlier list label.
\<close>

theorem extract_answer_labelled_line:
  assumes "\<not> labelled_earlier pre"
  shows "extract_answer (pre @ job_list_line) = [u ''Job Info'', u ''Employee Info''] \<and>
         extract_answer (pre @ none_line) = []"
proof -
  define x where "x = dropWhile py_isspace pre"
  have nx: "\<not> labelled_earlier x"
    unfolding x_def using assms by (rule labelled_earlier_dropWhile)
  have ne: "pre @ job_list_line \<noteq> []" "pre @ none_line \<noteq> []"
    by (simp_all add: job_list_line_def none_line_def eif_label_def u_def)
  have "extract_answer (pre @ job_list_line) = [u ''Job Info'', u ''Employee Info'']"
    unfolding extract_answer_def Let_def job_list_line_strip x_def[symmetric]
    using ne(1) job_line_stages[OF nx]
    by (simp add: long_text_stage_def)
  moreover have "extract_answer (pre @ none_line) = []"
    unfolding extract_answer_def Let_def none_line_strip x_def[symmetric]
    using ne(2) none_line_stages[OF nx]
    by (simp add: long_text_stage_def)
  ultimately show ?thesis by simp
qed

theorem extract_answer_labelled_line_witness:
  "\<not> labelled_earlier (u ''**Analysis**'' @ [10]) \<and>
   extract_answer (u ''**Analysis**'' @ [10] @ job_list_line) = [u ''Job Info'', u ''Employee Info''] \<and>
   extract_answer (u ''**Analysis**'' @ [10] @ none_line) = [] \<and>
   \<not> labelled_earlier (gongnengdian @ [0xFF1A] @ u ''abc'' @ [10]) \<and>
   extract_answer (gongnengdian @ [0xFF1A] @ u ''abc'' @ [10] @ job_list_line)
     = [u ''Job Info'', u ''Employee Info''] \<and>
   extract_answer (gongnengdian @ [0xFF1A] @ u ''abc'' @ [10] @ none_line) = [] \<and>
   \<not> labelled_earlier (zuizhong @ u '' analysis of the '' @ gongnengdian @ [10]) \<and>
   extract_answer (zuizhong @ u '' analysis of the '' @ gongnengdian @ [10] @ job_list_line)
     = [u ''Job Info'', u ''Employee Info''] \<and>
   extract_answer (zuizhong @ u '' analysis of the '' @ gongnengdian @ [10] @ none_line) = [] \<and>
   \<not> labelled_earlier (analysis_text @ [10]) \<and>
   500 < length (analysis_text @ [10]) \<and>
   extract_answer (analysis_text @ [10] @ job_list_line) = [u ''Job Info'', u ''Employee Info''] \<and>
   extract_answer (analysis_text @ [10] @ none_line) = []"
proof -
  have h1: "\<not> labelled_earlier (u ''**Analysis**'' @ [10])"
    by (simp add: labelled_earlier_def label_defs)
  have h2: "\<not> labelled_earlier (gongnengdian @ [0xFF1A] @ u ''abc'' @ [10])"
    by (simp add: labelled_earlier_def label_defs)
  have h3: "\<not> labelled_earlier (zuizhong @ u '' analysis of the '' @ gongnengdian @ [10])"
    by (simp add: labelled_earlier_def label_defs zuizhong_def)
  have h4: "\<not> labelled_earlier (analysis_text @ [10])"
    by (rule label_free) (simp_all add: analysis_text_def u_def)
  have l: "500 < length (analysis_text @ [10])"
    by (simp add: analysis_text_def u_def)
  from extract_answer_labelled_line[OF h1] extract_answer_labelled_line[OF h2]
    extract_answer_labelled_line[OF h3] extract_answer_labelled_line[OF h4] h1 h2 h3 h4 l
  show ?thesis by simp
qed

text \<open>
  C8. \<open>_string_similarity\<close> is a function of the two strings with a value between 0 and 1.
  It is the Jaccard index of the two sets of whitespace-delimited words, and when one of
  the strings has no word it is the Jaccard index of the two sets of characters (which is
  0 when a string is empty). On the example of the specification the score is 1/4.
\<close>

theorem string_similarity_jaccard:
  "0 \<le> string_similarity s1 s2 \<and> string_similarity s1 s2 \<le> 1 \<and>
   string_similarity s1 s2 =
     (if py_split s1 = [] \<or> py_split s2 = [] then jaccard (set s1) (set s2)
      else jaccard (set (py_split s1)) (set (py_split s2))) \<and>
   jaccard A B = (if card (A \<union> B) > 0 then real (card (A \<inter> B)) / real (card (A \<union> B)) else 0) \<and>
   string_similarity (u ''Employee Record'') (u ''Employee Records Table'') = 1 / 4"
proof -
  have e: "py_split [] = []" by (simp add: py_split_def)
  have j1: "jaccard {} (B::nat set) = 0" for B by (simp add: jaccard_def Let_def)
  have j2: "jaccard (A::nat set) {} = 0" for A by (simp add: jaccard_def Let_def)
  have "string_similarity s1 s2 =
     (if py_split s1 = [] \<or> py_split s2 = [] then jaccard (set s1) (set s2)
      else jaccard (set (py_split s1)) (set (py_split s2)))"
    by (auto simp: string_similarity_def e j1 j2)
  moreover have "string_similarity (u ''Employee Record'') (u ''Employee Records Table'') = 1 / 4"
    by (simp add: str_defs score_defs Let_def card_insert_if)
  moreover have "jaccard A B = (if card (A \<union> B) > 0 then real (card (A \<inter> B)) / real (card (A \<union> B)) else 0)"
    by (simp add: jaccard_def Let_def)
  ultimately show ?thesis using string_similarity_bounds[of s1 s2] by simp
qed

text \<open>
  C9. A predicted item whose best remaining ground-truth item has an empty normalised name
  is never accepted as a fuzzy match, whatever the score: no recorded match has a
  ground-truth name that normalises to the empty string, and when the inner loop ends with
  such a best item the outer loop goes on with the accumulators unchanged. Moreover
  \<open>_string_similarity\<close> is 0 when one of the strings is empty, also for two empty strings.
\<close>

theorem empty_normal_form_never_fuzzy:
  fixes lm :: "'s lm option" and s :: 's
  shows
  "(\<forall>m \<in> set (semantic_matches (fst (calculate_eif_similarity predicted ground_truth lm use s))).
      normalize_eif_name (m_truth m) \<noteq> []) \<and>
   (best_match_loop lm use pred matched ut (0, None, s) = (mx, Some ([], orig), s') \<longrightarrow>
      match_loop lm use ut (pred # rest) (fz, matched, ds, s)
        = match_loop lm use ut rest (fz, matched, ds, s')) \<and>
   accepted mx (Some ([], orig)) = None \<and>
   string_similarity [] s2 = 0 \<and> string_similarity s1 [] = 0 \<and> string_similarity [] [] = 0"
proof -
  have "\<forall>m \<in> set (semantic_matches (fst (calculate_eif_similarity predicted ground_truth lm use s))).
      normalize_eif_name (m_truth m) \<noteq> []"
  proof (cases "predicted = [] \<or> ground_truth = []")
    case True
    from report_empty[OF this, of lm use s] show ?thesis by simp
  next
    case False
    then have ne: "predicted \<noteq> []" "ground_truth \<noteq> []" by auto
    define ms where "ms = semantic_matches (fst (calculate_eif_similarity predicted ground_truth lm use s))"
    define ut where "ut = map (\<lambda>y. (normalize_eif_name y, y))
       (filter (\<lambda>y. normalize_eif_name y \<notin> normalize_eif_name ` set predicted) ground_truth)"
    from report_matches[OF ne, of lm use s] obtain fz matched and s' :: 's where
      inv: "loop_inv ut (fz, matched, ms, s')"
      unfolding ms_def ut_def by blast
    then have "list_all (\<lambda>m. \<exists>bm. bm \<noteq> [] \<and> (bm, m_truth m) \<in> set ut) ms"
      by (auto simp: loop_inv_def list_all_iff)
    then show ?thesis unfolding ms_def[symmetric] by (auto simp: list_all_iff ut_def)
  qed
  moreover have "accepted mx (Some ([], orig)) = None" by (simp add: accepted_def)
  ultimately show ?thesis by (simp add: string_similarity_def)
qed

theorem empty_normal_form_never_fuzzy_witness:
  "best_match_loop (Some (lm_says (u ''0.9''))) True (u ''x'', u ''X'') {} [([], u ''(y)'')] (0, None, ())
     = (9 / 10, Some ([], u ''(y)''), ()) \<and>
   match_loop (Some (lm_says (u ''0.9''))) True [([], u ''(y)'')] [(u ''x'', u ''X'')] (0, {}, [], ())
     = (0, {}, [], ()) \<and>
   normalize_eif_name (u ''(y)'') = [] \<and>
   semantic_matches (fst (calculate_eif_similarity [u ''X''] [u ''(y)''] (Some (lm_says (u ''0.9''))) True ()))
     = []"
proof -
  have b: "best_match_loop (Some (lm_says (u ''0.9''))) True (u ''x'', u ''X'') {} [([], u ''(y)'')] (0, None, ())
     = (9 / 10, Some ([], u ''(y)''), ())"
    by (simp add: str_defs score_defs lm_says_def Let_def)
  have n: "normalize_eif_name (u ''(y)'') = []"
    by (simp add: str_defs norm_defs)
  have c: "semantic_matches (fst (calculate_eif_similarity [u ''X''] [u ''(y)''] (Some (lm_says (u ''0.9''))) True ()))
     = []"
    by (simp add: str_defs norm_defs score_defs lm_says_def Let_def)
  from empty_normal_form_never_fuzzy
    [of "[u ''X'']" "[u ''(y)'']" "Some (lm_says (u ''0.9''))" True "()" "(u ''x'', u ''X'')" "{}"
        "[([], u ''(y)'')]" "9 / 10" "u ''(y)''" "()" "[]" 0 "[]"] b
  have "match_loop (Some (lm_says (u ''0.9''))) True [([], u ''(y)'')] [(u ''x'', u ''X'')] (0, {}, [], ())
     = (0, {}, [], ())" by simp
  with b n c show ?thesis by simp
qed

text \<open>
  C10. exact_matches is the number of normalised names that the two lists share, as sets:
  it is at most the number of different normalised names of either list, so entries that
  normalise identically count once. Every item whose normalised name occurs among the
  normalised names of the other list is left out of the fuzzy stage: that stage is the
  matching loop on the two lists without these items, and no recorded match has such an
  item.
\<close>

theorem exact_matches_set_based:
  fixes lm :: "'s lm option" and s :: 's
  shows
  "let r = fst (calculate_eif_similarity predicted ground_truth lm use s);
       pred_set = normalize_eif_name ` set predicted;
       truth_set = normalize_eif_name ` set ground_truth
   in exact_matches r = card (pred_set \<inter> truth_set) \<and>
      exact_matches r \<le> card pred_set \<and> exact_matches r \<le> card truth_set \<and>
      ((\<forall>p \<in> set predicted. normalize_eif_name p = k) \<longrightarrow> exact_matches r \<le> 1) \<and>
      ((\<forall>t \<in> set ground_truth. normalize_eif_name t = k) \<longrightarrow> exact_matches r \<le> 1) \<and>
      (\<forall>m \<in> set (semantic_matches r).
         normalize_eif_name (m_pred m) \<notin> truth_set \<and> normalize_eif_name (m_truth m) \<notin> pred_set) \<and>
      (predicted \<noteq> [] \<and> ground_truth \<noteq> [] \<longrightarrow>
         (\<exists>matched s'.
            match_loop lm use
              (map (\<lambda>y. (normalize_eif_name y, y))
                 (filter (\<lambda>y. normalize_eif_name y \<notin> pred_set) ground_truth))
              (map (\<lambda>y. (normalize_eif_name y, y))
                 (filter (\<lambda>y. normalize_eif_name y \<notin> truth_set) predicted))
              (0, {}, [], s)
            = (fuzzy_score r, matched, semantic_matches r, s')))"
proof -
  define r where "r = fst (calculate_eif_similarity predicted ground_truth lm use s)"
  define pred_set where "pred_set = normalize_eif_name ` set predicted"
  define truth_set where "truth_set = normalize_eif_name ` set ground_truth"
  define ut where "ut = map (\<lambda>y. (normalize_eif_name y, y))
     (filter (\<lambda>y. normalize_eif_name y \<notin> pred_set) ground_truth)"
  define up where "up = map (\<lambda>y. (normalize_eif_name y, y))
     (filter (\<lambda>y. normalize_eif_name y \<notin> truth_set) predicted)"
  have fin: "finite pred_set" "finite truth_set" by (simp_all add: pred_set_def truth_set_def)
  have all: "exact_matches r = card (pred_set \<inter> truth_set) \<and>
      (\<forall>m \<in> set (semantic_matches r).
         normalize_eif_name (m_pred m) \<notin> truth_set \<and> normalize_eif_name (m_truth m) \<notin> pred_set) \<and>
      (predicted \<noteq> [] \<and> ground_truth \<noteq> [] \<longrightarrow>
         (\<exists>matched s'. match_loop lm use ut up (0, {}, [], s)
            = (fuzzy_score r, matched, semantic_matches r, s')))"
  proof (cases "predicted = [] \<or> ground_truth = []")
    case True
    from report_empty[OF this, of lm use s] True
    show ?thesis
      by (auto simp: r_def pred_set_def truth_set_def)
  next
    case False
    then have ne: "predicted \<noteq> []" "ground_truth \<noteq> []" by auto
    from report_matches[OF ne, of lm use s] obtain matched and s' :: 's where
      m: "match_loop lm use ut up (0, {}, [], s) = (fuzzy_score r, matched, semantic_matches r, s')"
      and inv: "loop_inv ut (fuzzy_score r, matched, semantic_matches r, s')"
      and sub: "subseq (map m_pred (semantic_matches r)) (map snd up)"
      and e: "exact_matches r = card (pred_set \<inter> truth_set)"
      unfolding r_def ut_def up_def pred_set_def truth_set_def by blast
    have t: "\<forall>m \<in> set (semantic_matches r). \<exists>bm. (bm, m_truth m) \<in> set ut"
      using inv by (auto simp: loop_inv_def list_all_iff)
    have "set (map m_pred (semantic_matches r)) \<subseteq> set (map snd up)"
      using sub by (rule subseq_set_mono)
    then have p: "\<forall>m \<in> set (semantic_matches r). m_pred m \<in> snd ` set up" by auto
    have "\<forall>m \<in> set (semantic_matches r).
         normalize_eif_name (m_pred m) \<notin> truth_set \<and> normalize_eif_name (m_truth m) \<notin> pred_set"
      using t p by (auto simp: ut_def up_def)
    with e m show ?thesis by blast
  qed
  then have ex: "exact_matches r = card (pred_set \<inter> truth_set)"
    and ms: "\<forall>m \<in> set (semantic_matches r).
         normalize_eif_name (m_pred m) \<notin> truth_set \<and> normalize_eif_name (m_truth m) \<notin> pred_set"
    and ml: "predicted \<noteq> [] \<and> ground_truth \<noteq> [] \<longrightarrow>
         (\<exists>matched s'. match_loop lm use ut up (0, {}, [], s)
            = (fuzzy_score r, matched, semantic_matches r, s'))"
    by blast+
  have le1: "exact_matches r \<le> card pred_set" "exact_matches r \<le> card truth_set"
    using fin by (simp_all add: ex card_mono)
  have one_p: "(\<forall>p \<in> set predicted. normalize_eif_name p = k) \<longrightarrow> exact_matches r \<le> 1"
  proof
    assume "\<forall>p \<in> set predicted. normalize_eif_name p = k"
    then have "pred_set \<subseteq> {k}" by (auto simp: pred_set_def)
    then have "card pred_set \<le> card {k}" by (intro card_mono) auto
    with le1 show "exact_matches r \<le> 1" by simp
  qed
  have one_t: "(\<forall>t \<in> set ground_truth. normalize_eif_name t = k) \<longrightarrow> exact_matches r \<le> 1"
  proof
    assume "\<forall>t \<in> set ground_truth. normalize_eif_name t = k"
    then have "truth_set \<subseteq> {k}" by (auto simp: truth_set_def)
    then have "card truth_set \<le> card {k}" by (intro card_mono) auto
    with le1 show "exact_matches r \<le> 1" by simp
  qed
  show ?thesis
    unfolding Let_def r_def[symmetric] pred_set_def[symmetric] truth_set_def[symmetric]
      ut_def[symmetric] up_def[symmetric]
    using ex le1 one_p one_t ms ml by blast
qed

theorem exact_matches_set_based_witness:
  "normalize_eif_name (u ''Customer Master'') = u ''customer master'' \<and>
   normalize_eif_name (u ''customer  master'') = u ''customer master'' \<and>
   exact_matches (fst (calculate_eif_similarity [u ''Customer Master'', u ''customer  master'']
      [u ''Customer Master''] None False ())) = 1 \<and>
   semantic_matches (fst (calculate_eif_similarity [u ''Customer Master'', u ''customer  master'']
      [u ''Customer Master''] None False ())) = []"
  using exact_matches_set_based
    [of "[u ''Customer Master'', u ''customer  master'']" "[u ''Customer Master'']" None False "()"
        "u ''customer master''"]
  by (simp add: str_defs norm_defs score_defs Let_def card_insert_if)

end
